theory Spec2Isabelle
  imports Main "HOL-Library.Word" "HOL-Library.Multiset"
begin

unbundle bit_operations_syntax

section \<open>Data model of ADIS.py\<close>

text \<open>
  A pixel of the numpy array \<^verbatim>\<open>image_array\<close> (dtype uint8, shape (R, R, 3)) is a triple of
  8-bit words. The array itself is the list of its rows. Python exceptions are values of
  \<open>error\<close>; a function that can raise returns \<open>error + 'a\<close> with \<open>Inl\<close> the exception.
\<close>

type_synonym rgb = "8 word \<times> 8 word \<times> 8 word"

type_synonym image = "rgb list list"

datatype error = IndexError | ZeroDivisionError | ValueError
  | UnicodeEncodeError | UnicodeDecodeError

text \<open>
  \<^verbatim>\<open>check_direction\<close> is one of the strings 'left', 'right', 'up', 'down'
  (class \<^verbatim>\<open>Color\<close>, line 17).
\<close>

datatype direction = Left | Right | Up | Down

record color =
  rgb :: rgb
  check_direction :: direction
  activation_colors :: "rgb list"

text \<open>
  The fields of \<^verbatim>\<open>ADISFile\<close> (lines 21-32). \<^verbatim>\<open>np.zeros\<close> rejects a negative
  dimension, so the resolution of an instance is a natural number; the other numbers are
  Python's unbounded integers.
\<close>

record adis =
  resolution :: nat
  color_depth :: int
  iteration_speed :: int
  last_time :: int
  now_time :: int
  iteration_count :: int
  color_set :: "color list"
  image_array :: image
  encrypted_string :: "string option"
  key_image :: "image option"

section \<open>The automaton\<close>

text \<open>
  \<^verbatim>\<open>a[x, y]\<close> on a numpy array raises IndexError outside the array. All indices the program
  computes are non-negative (they come from \<^verbatim>\<open>range\<close> and from \<^verbatim>\<open>% resolution\<close>).
\<close>

definition get_pixel :: "image \<Rightarrow> nat \<Rightarrow> nat \<Rightarrow> error + rgb" where
  "get_pixel a x y =
     (if x < length a \<and> y < length (a ! x) then Inr (a ! x ! y) else Inl IndexError)"

definition set_pixel :: "image \<Rightarrow> nat \<Rightarrow> nat \<Rightarrow> rgb \<Rightarrow> error + image" where
  "set_pixel a x y v =
     (if x < length a \<and> y < length (a ! x) then Inr (a[x := (a ! x)[y := v]])
      else Inl IndexError)"

text \<open>
  \<^verbatim>\<open>get_check_position\<close> (lines 68-77). Python's \<^verbatim>\<open>%\<close> rounds towards minus infinity, as
  \<open>mod\<close> on \<open>int\<close> does, and raises ZeroDivisionError for a zero modulus.
\<close>

definition get_check_position :: "nat \<Rightarrow> nat \<Rightarrow> nat \<Rightarrow> direction \<Rightarrow> error + (nat \<times> nat)" where
  "get_check_position R x y d =
     (if R = 0 then Inl ZeroDivisionError
      else case d of
        Right \<Rightarrow> Inr (x, nat ((int y + 1) mod int R))
      | Left \<Rightarrow> Inr (x, nat ((int y - 1) mod int R))
      | Up \<Rightarrow> Inr (nat ((int x - 1) mod int R), y)
      | _ \<Rightarrow> Inr (nat ((int x + 1) mod int R), y))"

text \<open>A \<^verbatim>\<open>for\<close> loop whose body may raise: the first exception ends the loop.\<close>

fun for_each :: "('a \<Rightarrow> 'b \<Rightarrow> error + 'b) \<Rightarrow> 'a list \<Rightarrow> 'b \<Rightarrow> error + 'b" where
  "for_each f [] b = Inr b"
| "for_each f (a # as) b =
     (case f a b of Inl e \<Rightarrow> Inl e | Inr b' \<Rightarrow> for_each f as b')"

text \<open>
  The body of the two loops of \<^verbatim>\<open>iterate_once\<close> (lines 85-96): \<open>new\<close> is
  \<^verbatim>\<open>new_array\<close>, every read is from \<^verbatim>\<open>self.image_array\<close>. \<^verbatim>\<open>next(..., None)\<close> over the
  generator is the first colour of \<^verbatim>\<open>color_set\<close> with the pixel's value, and an object
  of class \<^verbatim>\<open>Color\<close> is always true.
\<close>

definition iterate_cell :: "adis \<Rightarrow> nat \<Rightarrow> nat \<Rightarrow> image \<Rightarrow> error + image" where
  "iterate_cell s x y new =
     (case get_pixel (image_array s) x y of
        Inl e \<Rightarrow> Inl e
      | Inr current_color \<Rightarrow>
          (case find (\<lambda>c. rgb c = current_color) (color_set s) of
             None \<Rightarrow> Inr new
           | Some color_obj \<Rightarrow>
               (case get_check_position (resolution s) x y (check_direction color_obj) of
                  Inl e \<Rightarrow> Inl e
                | Inr (check_x, check_y) \<Rightarrow>
                    (case get_pixel (image_array s) check_x check_y of
                       Inl e \<Rightarrow> Inl e
                     | Inr neighbor_color \<Rightarrow>
                         if neighbor_color \<in> set (activation_colors color_obj)
                         then (case set_pixel new x y neighbor_color of
                                 Inl e \<Rightarrow> Inl e
                               | Inr new' \<Rightarrow> set_pixel new' check_x check_y current_color)
                         else Inr new))))"

text \<open>
  \<^verbatim>\<open>iterate_once\<close> (lines 79-98): \<^verbatim>\<open>np.copy\<close> is the value of the array; the instance
  is assigned the new array only when both loops have finished.
\<close>

definition iterate_once :: "adis \<Rightarrow> error + adis" where
  "iterate_once s =
     (case for_each (\<lambda>x. for_each (\<lambda>y. iterate_cell s x y) [0..<resolution s])
             [0..<resolution s] (image_array s) of
        Inl e \<Rightarrow> Inl e
      | Inr new_array \<Rightarrow> Inr (s\<lparr>image_array := new_array\<rparr>))"

section \<open>The time scheduler\<close>

text \<open>
  \<^verbatim>\<open>update_times\<close> (lines 109-117). The value of \<^verbatim>\<open>get_internet_time()\<close> is the
  argument \<open>current_time\<close>.
\<close>

definition update_times :: "adis \<Rightarrow> int \<Rightarrow> adis" where
  "update_times s current_time =
     (if last_time s = 0
      then s\<lparr>last_time := current_time, now_time := current_time + iteration_speed s\<rparr>
      else s\<lparr>last_time := now_time s, now_time := current_time\<rparr>)"

text \<open>The loop of \<^verbatim>\<open>iterate_required\<close> (lines 124-126), run \<open>n\<close> times.\<close>

fun iterate_loop :: "nat \<Rightarrow> adis \<Rightarrow> error + adis" where
  "iterate_loop 0 s = Inr s"
| "iterate_loop (Suc n) s =
     (case iterate_once s of
        Inl e \<Rightarrow> Inl e
      | Inr s' \<Rightarrow> iterate_loop n (s'\<lparr>iteration_count := iteration_count s' + 1\<rparr>))"

text \<open>
  \<^verbatim>\<open>iterate_required\<close> (lines 119-126). \<^verbatim>\<open>//\<close> is floor division and raises
  ZeroDivisionError for a zero divisor; \<^verbatim>\<open>range(n)\<close> is empty for \<open>n \<le> 0\<close>.
\<close>

definition iterate_required :: "adis \<Rightarrow> error + adis" where
  "iterate_required s =
     (let time_diff = now_time s - last_time s in
      if iteration_speed s = 0 then Inl ZeroDivisionError
      else let iterations_needed = time_diff div iteration_speed s in
           iterate_loop (nat iterations_needed) s)"

section \<open>The key deriver\<close>

text \<open>
  \<^verbatim>\<open>format(value, '08b')\<close> of a uint8: its eight bits, the most significant first.
\<close>

definition format_08b :: "8 word \<Rightarrow> string" where
  "format_08b v = map (\<lambda>i. if bit v i then CHR ''1'' else CHR ''0'') [7, 6, 5, 4, 3, 2, 1, 0]"

text \<open>The three loops of \<^verbatim>\<open>generate_key\<close> (lines 130-135) that build \<^verbatim>\<open>binary\<close>.\<close>

definition append_pixel :: "adis \<Rightarrow> nat \<Rightarrow> nat \<Rightarrow> string \<Rightarrow> error + string" where
  "append_pixel s x y binary =
     (case get_pixel (image_array s) x y of
        Inl e \<Rightarrow> Inl e
      | Inr (r, g, b) \<Rightarrow> Inr (binary @ format_08b r @ format_08b g @ format_08b b))"

definition serialize :: "adis \<Rightarrow> error + string" where
  "serialize s =
     for_each (\<lambda>x. for_each (\<lambda>y. append_pixel s x y) [0..<resolution s])
       [0..<resolution s] []"

text \<open>The decimal digits of a count, as the f-string \<^verbatim>\<open>f"{count}"\<close> prints it.\<close>

definition digit_char :: "nat \<Rightarrow> char" where
  "digit_char d = ''0123456789'' ! d"

fun decimal :: "nat \<Rightarrow> string" where
  "decimal n = (if n < 10 then [digit_char n] else decimal (n div 10) @ [digit_char (n mod 10)])"

declare decimal.simps [simp del]

text \<open>
  The loop over \<^verbatim>\<open>binary[1:]\<close> (lines 142-148) and the statement after it (line 150):
  the arguments are the bits still to read, \<^verbatim>\<open>compressed\<close>, \<^verbatim>\<open>current_bit\<close> and
  \<^verbatim>\<open>count\<close> (here \<open>n\<close>).
\<close>

fun compress :: "string \<Rightarrow> string \<Rightarrow> char \<Rightarrow> nat \<Rightarrow> string" where
  "compress [] compressed current_bit n = compressed @ current_bit # decimal n"
| "compress (b # rest) compressed current_bit n =
     (if b = current_bit then compress rest compressed current_bit (n + 1)
      else compress rest (compressed @ current_bit # decimal n) b 1)"

text \<open>
  \<^verbatim>\<open>generate_key\<close> (lines 128-151). \<^verbatim>\<open>binary[0]\<close> raises IndexError on the empty
  string.
\<close>

definition generate_key :: "adis \<Rightarrow> error + string" where
  "generate_key s =
     (case serialize s of
        Inl e \<Rightarrow> Inl e
      | Inr binary \<Rightarrow>
          (case binary of
             [] \<Rightarrow> Inl IndexError
           | current_bit # rest \<Rightarrow> Inr (compress rest [] current_bit 1)))"

section \<open>The cipher\<close>

text \<open>
  \<^verbatim>\<open>[key[i:i+2] for i in range(0, len(key), 2)]\<close>: the chunks of two characters, the
  last one of a single character when the length is odd.
\<close>

fun chunks2 :: "string \<Rightarrow> string list" where
  "chunks2 [] = []"
| "chunks2 [a] = [[a]]"
| "chunks2 (a # b # rest) = [a, b] # chunks2 rest"

definition is_digit :: "char \<Rightarrow> bool" where
  "is_digit c = (c \<in> set ''0123456789'')"

definition digit_val :: "char \<Rightarrow> nat" where
  "digit_val c = of_char c - 48"

text \<open>
  \<^verbatim>\<open>int(chunk, 10)\<close> on a string of ASCII decimal digits. Any other string is a
  ValueError here; \<^verbatim>\<open>generate_key\<close> produces digits only, as proved below.
\<close>

definition py_int :: "string \<Rightarrow> error + nat" where
  "py_int chunk =
     (if chunk \<noteq> [] \<and> list_all is_digit chunk
      then Inr (foldl (\<lambda>a c. 10 * a + digit_val c) 0 chunk)
      else Inl ValueError)"

text \<open>A list comprehension whose element expression may raise.\<close>

fun map_raise :: "('a \<Rightarrow> error + 'b) \<Rightarrow> 'a list \<Rightarrow> error + 'b list" where
  "map_raise f [] = Inr []"
| "map_raise f (a # as) =
     (case f a of
        Inl e \<Rightarrow> Inl e
      | Inr b \<Rightarrow> (case map_raise f as of Inl e \<Rightarrow> Inl e | Inr bs \<Rightarrow> Inr (b # bs)))"

definition key_bytes_of :: "string \<Rightarrow> error + nat list" where
  "key_bytes_of key = map_raise py_int (chunks2 key)"

text \<open>
  A Python \<^verbatim>\<open>str\<close> is the list of its code points, a \<^verbatim>\<open>bytes\<close> object the list of its
  values. \<^verbatim>\<open>str.encode('utf-8')\<close> raises UnicodeEncodeError on a surrogate code point.
\<close>

definition encode_char :: "nat \<Rightarrow> error + nat list" where
  "encode_char c =
     (if c < 0x80 then Inr [c]
      else if c < 0x800 then Inr [0xC0 + c div 64, 0x80 + c mod 64]
      else if c < 0x10000 then
        (if 0xD800 \<le> c \<and> c \<le> 0xDFFF then Inl UnicodeEncodeError
         else Inr [0xE0 + c div 4096, 0x80 + c div 64 mod 64, 0x80 + c mod 64])
      else if c < 0x110000 then
        Inr [0xF0 + c div 262144, 0x80 + c div 4096 mod 64, 0x80 + c div 64 mod 64,
             0x80 + c mod 64]
      else Inl UnicodeEncodeError)"

fun encode_utf8 :: "nat list \<Rightarrow> error + nat list" where
  "encode_utf8 [] = Inr []"
| "encode_utf8 (c # cs) =
     (case encode_char c of
        Inl e \<Rightarrow> Inl e
      | Inr bs \<Rightarrow> (case encode_utf8 cs of Inl e \<Rightarrow> Inl e | Inr rest \<Rightarrow> Inr (bs @ rest)))"

text \<open>
  \<^verbatim>\<open>bytes.decode('utf-8')\<close>, strict: a continuation byte is \<open>10xxxxxx\<close>; overlong forms,
  surrogates and code points above U+10FFFF raise UnicodeDecodeError.
\<close>

definition is_cont :: "nat \<Rightarrow> bool" where
  "is_cont b = (0x80 \<le> b \<and> b < 0xC0)"

fun decode_utf8 :: "nat list \<Rightarrow> error + nat list" where
  "decode_utf8 [] = Inr []"
| "decode_utf8 (b0 # bs) =
     (if b0 < 0x80 then map_sum id ((#) b0) (decode_utf8 bs)
      else if 0xC0 \<le> b0 \<and> b0 < 0xE0 then
        (case bs of
           b1 # rest \<Rightarrow>
             (let c = (b0 - 0xC0) * 64 + (b1 - 0x80) in
              if is_cont b1 \<and> 0x80 \<le> c then map_sum id ((#) c) (decode_utf8 rest)
              else Inl UnicodeDecodeError)
         | _ \<Rightarrow> Inl UnicodeDecodeError)
      else if 0xE0 \<le> b0 \<and> b0 < 0xF0 then
        (case bs of
           b1 # b2 # rest \<Rightarrow>
             (let c = (b0 - 0xE0) * 4096 + (b1 - 0x80) * 64 + (b2 - 0x80) in
              if is_cont b1 \<and> is_cont b2 \<and> 0x800 \<le> c \<and> \<not> (0xD800 \<le> c \<and> c \<le> 0xDFFF)
              then map_sum id ((#) c) (decode_utf8 rest)
              else Inl UnicodeDecodeError)
         | _ \<Rightarrow> Inl UnicodeDecodeError)
      else if 0xF0 \<le> b0 \<and> b0 < 0xF8 then
        (case bs of
           b1 # b2 # b3 # rest \<Rightarrow>
             (let c = (b0 - 0xF0) * 262144 + (b1 - 0x80) * 4096 + (b2 - 0x80) * 64
                        + (b3 - 0x80) in
              if is_cont b1 \<and> is_cont b2 \<and> is_cont b3 \<and> 0x10000 \<le> c \<and> c < 0x110000
              then map_sum id ((#) c) (decode_utf8 rest)
              else Inl UnicodeDecodeError)
         | _ \<Rightarrow> Inl UnicodeDecodeError)
      else Inl UnicodeDecodeError)"

text \<open>\<^verbatim>\<open>bytes(...)\<close> of integers raises ValueError unless every one is in \<^verbatim>\<open>range(256)\<close>.\<close>

definition to_bytes :: "nat list \<Rightarrow> error + nat list" where
  "to_bytes vs = (if list_all (\<lambda>v. v < 256) vs then Inr vs else Inl ValueError)"

text \<open>
  \<^verbatim>\<open>bytes(a ^ b for a, b in zip(data, key_bytes * (len(data) // len(key_bytes) + 1)))\<close>
  (lines 158 and 167). The division raises ZeroDivisionError for an empty key.
\<close>

definition xor_bytes :: "nat list \<Rightarrow> nat list \<Rightarrow> error + nat list" where
  "xor_bytes data key_bytes =
     (if length key_bytes = 0 then Inl ZeroDivisionError
      else to_bytes (map (\<lambda>(a, b). a XOR b)
             (zip data (concat (replicate (length data div length key_bytes + 1) key_bytes)))))"

text \<open>\<^verbatim>\<open>bytes.hex()\<close>: two lower-case hexadecimal digits for each byte.\<close>

definition hex_char :: "nat \<Rightarrow> char" where
  "hex_char d = ''0123456789abcdef'' ! d"

definition hex :: "nat list \<Rightarrow> string" where
  "hex bs = concat (map (\<lambda>b. [hex_char (b div 16), hex_char (b mod 16)]) bs)"

text \<open>
  \<^verbatim>\<open>bytes.fromhex\<close>: two hexadecimal digits of either case for each byte, ASCII
  whitespace skipped between bytes, ValueError otherwise.
\<close>

definition hex_val :: "char \<Rightarrow> nat option" where
  "hex_val c =
     (if c \<in> set ''0123456789'' then Some (of_char c - 48)
      else if c \<in> set ''abcdef'' then Some (of_char c - 87)
      else if c \<in> set ''ABCDEF'' then Some (of_char c - 55)
      else None)"

definition is_space :: "char \<Rightarrow> bool" where
  "is_space c = (c \<in> set [CHR 0x20, CHR 0x09, CHR 0x0A, CHR 0x0B, CHR 0x0C, CHR 0x0D])"

fun fromhex :: "string \<Rightarrow> error + nat list" where
  "fromhex [] = Inr []"
| "fromhex [c] = (if is_space c then Inr [] else Inl ValueError)"
| "fromhex (c # d # rest) =
     (if is_space c then fromhex (d # rest)
      else case (hex_val c, hex_val d) of
        (Some h, Some l) \<Rightarrow> map_sum id ((#) (16 * h + l)) (fromhex rest)
      | _ \<Rightarrow> Inl ValueError)"

text \<open>\<^verbatim>\<open>encrypt_string\<close> (lines 153-159).\<close>

definition encrypt_string :: "adis \<Rightarrow> nat list \<Rightarrow> error + string" where
  "encrypt_string s text =
     (case generate_key s of
        Inl e \<Rightarrow> Inl e
      | Inr key \<Rightarrow>
          (case key_bytes_of key of
             Inl e \<Rightarrow> Inl e
           | Inr key_bytes \<Rightarrow>
               (case encode_utf8 text of
                  Inl e \<Rightarrow> Inl e
                | Inr text_bytes \<Rightarrow>
                    (case xor_bytes text_bytes key_bytes of
                       Inl e \<Rightarrow> Inl e
                     | Inr encrypted_bytes \<Rightarrow> Inr (hex encrypted_bytes)))))"

text \<open>\<^verbatim>\<open>decrypt_string\<close> (lines 162-168).\<close>

definition decrypt_string :: "adis \<Rightarrow> string \<Rightarrow> error + nat list" where
  "decrypt_string s encrypted_hex =
     (case generate_key s of
        Inl e \<Rightarrow> Inl e
      | Inr key \<Rightarrow>
          (case key_bytes_of key of
             Inl e \<Rightarrow> Inl e
           | Inr key_bytes \<Rightarrow>
               (case fromhex encrypted_hex of
                  Inl e \<Rightarrow> Inl e
                | Inr encrypted_bytes \<Rightarrow>
                    (case xor_bytes encrypted_bytes key_bytes of
                       Inl e \<Rightarrow> Inl e
                     | Inr decrypted_bytes \<Rightarrow> decode_utf8 decrypted_bytes))))"

text \<open>
  The end of \<^verbatim>\<open>create_adis\<close> (lines 228-230): the text of the entry is encrypted, the
  ciphertext and a copy of the array are stored in the instance. An exception leaves the
  instance as it was and is shown in a message box; it is the \<open>Inl\<close> result.
\<close>

definition create_adis_encrypt :: "adis \<Rightarrow> nat list \<Rightarrow> error + adis" where
  "create_adis_encrypt s string =
     (case encrypt_string s string of
        Inl e \<Rightarrow> Inl e
      | Inr encrypted \<Rightarrow>
          Inr (s\<lparr>encrypted_string := Some encrypted, key_image := Some (image_array s)\<rparr>))"

text \<open>
  The callback \<^verbatim>\<open>encrypt_string\<close> of the menu for an existing file (lines 272-282): it
  does the same, but only \<^verbatim>\<open>if string:\<close>, so an empty text stores nothing.
\<close>

definition existing_encrypt :: "adis \<Rightarrow> nat list \<Rightarrow> error + adis" where
  "existing_encrypt s string =
     (if string \<noteq> [] then
        (case encrypt_string s string of
           Inl e \<Rightarrow> Inl e
         | Inr encrypted \<Rightarrow>
             Inr (s\<lparr>encrypted_string := Some encrypted, key_image := Some (image_array s)\<rparr>))
      else Inr s)"

text \<open>
  The callback \<^verbatim>\<open>decrypt_string\<close> of the same menu (lines 284-293): \<open>None\<close> is the message
  "No encrypted string found", shown when the stored string is \<^verbatim>\<open>None\<close> or empty;
  otherwise the stored ciphertext is decrypted with the instance as it is now.
\<close>

definition existing_decrypt :: "adis \<Rightarrow> (error + nat list) option" where
  "existing_decrypt s =
     (case encrypted_string s of
        None \<Rightarrow> None
      | Some encrypted \<Rightarrow>
          if encrypted = [] then None else Some (decrypt_string s encrypted))"

section \<open>Construction of an instance and of its colours\<close>

text \<open>
  \<^verbatim>\<open>ADISFile.__init__\<close> (lines 21-32) with the default ticks and count. It checks none of
  its arguments. The only call that can raise is \<^verbatim>\<open>np.zeros((resolution, resolution, 3))\<close>
  (a negative dimension, or one too large to allocate); its outcome, the exception or the
  array of zeros, is the argument \<open>zeros\<close>.
\<close>

definition adis_init :: "int \<Rightarrow> int \<Rightarrow> int \<Rightarrow> error + image \<Rightarrow> error + adis" where
  "adis_init res depth speed zeros =
     (case zeros of
        Inl e \<Rightarrow> Inl e
      | Inr a \<Rightarrow>
          Inr \<lparr>resolution = nat res, color_depth = depth, iteration_speed = speed,
               last_time = 0, now_time = 0, iteration_count = 0, color_set = [],
               image_array = a, encrypted_string = None, key_image = None\<rparr>)"

text \<open>
  The module \<^verbatim>\<open>random\<close> is a tape of natural numbers: each call takes the next number
  and reduces it to the range it draws from. A function that runs out of tape returns
  \<open>None\<close>. \<^verbatim>\<open>randint(a, b)\<close> raises ValueError on an empty range, \<^verbatim>\<open>choice\<close> raises
  IndexError on an empty sequence, \<^verbatim>\<open>sample(population, k)\<close> raises ValueError when \<open>k\<close>
  exceeds the population.
\<close>

type_synonym tape = "nat list"

definition randint :: "int \<Rightarrow> int \<Rightarrow> nat \<Rightarrow> error + int" where
  "randint a b r = (if b < a then Inl ValueError else Inr (a + int r mod (b - a + 1)))"

definition choice :: "'a list \<Rightarrow> nat \<Rightarrow> error + 'a" where
  "choice seq r = (if seq = [] then Inl IndexError else Inr (seq ! (r mod length seq)))"

fun pick :: "nat \<Rightarrow> 'a list \<Rightarrow> tape \<Rightarrow> ('a list \<times> tape) option" where
  "pick 0 population tape = Some ([], tape)"
| "pick (Suc k) population [] = None"
| "pick (Suc k) population (r # tape) =
     (let i = r mod length population in
      case pick k (take i population @ drop (Suc i) population) tape of
        None \<Rightarrow> None
      | Some (chosen, tape') \<Rightarrow> Some (population ! i # chosen, tape'))"

definition sample :: "'a list \<Rightarrow> int \<Rightarrow> tape \<Rightarrow> (error + 'a list \<times> tape) option" where
  "sample population k tape =
     (if k < 0 \<or> int (length population) < k then Some (Inl ValueError)
      else case pick (nat k) population tape of
        None \<Rightarrow> None
      | Some r \<Rightarrow> Some (Inr r))"

text \<open>
  The \<^verbatim>\<open>while True\<close> loop of lines 41-47: three draws for each candidate, until one is
  not in \<^verbatim>\<open>used_colors\<close>.
\<close>

fun fresh_color :: "rgb list \<Rightarrow> tape \<Rightarrow> (rgb \<times> tape) option" where
  "fresh_color used (r # g # b # tape) =
     (let new_rgb = (of_nat (r mod 256), of_nat (g mod 256), of_nat (b mod 256)) in
      if new_rgb \<notin> set used then Some (new_rgb, tape) else fresh_color used tape)"
| "fresh_color used tape = None"

definition directions :: "direction list" where
  "directions = [Left, Right, Up, Down]"

text \<open>
  Lines 49-54: the activation colours of a new colour. \<^verbatim>\<open>used_colors\<close> is kept as the
  list of its members.
\<close>

definition pick_activation :: "rgb list \<Rightarrow> tape \<Rightarrow> (error + rgb list \<times> tape) option" where
  "pick_activation available_colors tape =
     (if 1 \<le> length available_colors then
        (case tape of
           [] \<Rightarrow> None
         | r # tape' \<Rightarrow>
             (case randint 1 (min 2 (int (length available_colors))) r of
                Inl e \<Rightarrow> Some (Inl e)
              | Inr num_activation_colors \<Rightarrow>
                  sample available_colors num_activation_colors tape'))
      else Some (Inr ([], tape)))"

text \<open>The \<^verbatim>\<open>for\<close> loop of lines 39-59, with \<open>n\<close> iterations left.\<close>

fun color_loop :: "nat \<Rightarrow> rgb list \<Rightarrow> color list \<Rightarrow> tape \<Rightarrow> (error + color list) option" where
  "color_loop 0 used_colors cs tape = Some (Inr cs)"
| "color_loop (Suc n) used_colors cs tape =
     (case fresh_color used_colors tape of
        None \<Rightarrow> None
      | Some (new_rgb, tape1) \<Rightarrow>
          (case pick_activation (filter (\<lambda>c. c \<noteq> new_rgb) (used_colors @ [new_rgb])) tape1 of
             None \<Rightarrow> None
           | Some (Inl e) \<Rightarrow> Some (Inl e)
           | Some (Inr (activation, tape2)) \<Rightarrow>
               (case tape2 of
                  [] \<Rightarrow> None
                | r # tape3 \<Rightarrow>
                    (case choice directions r of
                       Inl e \<Rightarrow> Some (Inl e)
                     | Inr dir \<Rightarrow>
                         color_loop n (used_colors @ [new_rgb])
                           (cs @ [\<lparr>rgb = new_rgb, check_direction = dir,
                                   activation_colors = activation\<rparr>]) tape3))))"

text \<open>
  \<^verbatim>\<open>generate_random_colors\<close> (lines 34-59); \<^verbatim>\<open>range(color_depth)\<close> is empty for a
  depth below 1.
\<close>

definition generate_random_colors :: "tape \<Rightarrow> adis \<Rightarrow> (error + adis) option" where
  "generate_random_colors tape s =
     (case color_loop (nat (color_depth s)) [] (color_set s) tape of
        None \<Rightarrow> None
      | Some (Inl e) \<Rightarrow> Some (Inl e)
      | Some (Inr cs) \<Rightarrow> Some (Inr (s\<lparr>color_set := cs\<rparr>)))"

section \<open>Notions used to state the properties\<close>

text \<open>An array of shape (R, R, 3): \<open>R\<close> rows of \<open>R\<close> pixels.\<close>

definition wf_image :: "nat \<Rightarrow> image \<Rightarrow> bool" where
  "wf_image R a = (length a = R \<and> list_all (\<lambda>row. length row = R) a)"

text \<open>The assignment \<^verbatim>\<open>a[x, y] = v\<close> inside the array.\<close>

definition poke :: "image \<Rightarrow> nat \<Rightarrow> nat \<Rightarrow> rgb \<Rightarrow> image" where
  "poke a x y v = a[x := (a ! x)[y := v]]"

text \<open>The 24 bits a pixel contributes to \<^verbatim>\<open>binary\<close>.\<close>

definition pixel_bits :: "rgb \<Rightarrow> string" where
  "pixel_bits p = (case p of (r, g, b) \<Rightarrow> format_08b r @ format_08b g @ format_08b b)"

text \<open>
  The neighbour a cell swaps with in one pass of \<^verbatim>\<open>iterate_once\<close>, if it swaps: the
  condition of line 93, evaluated on the array before the pass.
\<close>

definition swap_target :: "adis \<Rightarrow> nat \<Rightarrow> nat \<Rightarrow> (nat \<times> nat) option" where
  "swap_target s x y =
     (case get_pixel (image_array s) x y of
        Inl e \<Rightarrow> None
      | Inr current_color \<Rightarrow>
          (case find (\<lambda>c. rgb c = current_color) (color_set s) of
             None \<Rightarrow> None
           | Some color_obj \<Rightarrow>
               (case get_check_position (resolution s) x y (check_direction color_obj) of
                  Inl e \<Rightarrow> None
                | Inr (check_x, check_y) \<Rightarrow>
                    (case get_pixel (image_array s) check_x check_y of
                       Inl e \<Rightarrow> None
                     | Inr neighbor_color \<Rightarrow>
                         if neighbor_color \<in> set (activation_colors color_obj)
                         then Some (check_x, check_y) else None))))"

text \<open>The cells written by the swaps of the cells \<open>cs\<close>, in the order of the writes.\<close>

fun touched :: "adis \<Rightarrow> (nat \<times> nat) list \<Rightarrow> (nat \<times> nat) list" where
  "touched s [] = []"
| "touched s ((x, y) # cs) =
     (case swap_target s x y of
        None \<Rightarrow> touched s cs
      | Some q \<Rightarrow> (x, y) # q # touched s cs)"

text \<open>
  \<open>n\<close> successive calls of \<^verbatim>\<open>iterate_once\<close>, each on the instance the call before
  left; the first exception ends them.
\<close>

fun passes :: "nat \<Rightarrow> adis \<Rightarrow> error + adis" where
  "passes 0 s = Inr s"
| "passes (Suc n) s = (case iterate_once s of Inl e \<Rightarrow> Inl e | Inr t \<Rightarrow> passes n t)"

text \<open>
  A code point that UTF-8 encodes: at most U+10FFFF and no surrogate. These are the
  characters of the strings the cipher is for.
\<close>

definition is_scalar :: "nat \<Rightarrow> bool" where
  "is_scalar c = (c < 0x110000 \<and> \<not> (0xD800 \<le> c \<and> c \<le> 0xDFFF))"

text \<open>The repeated key of lines 158 and 167, for \<open>n\<close> bytes of data.\<close>

definition key_cycle :: "nat \<Rightarrow> nat list \<Rightarrow> nat list" where
  "key_cycle n key_bytes = concat (replicate (n div length key_bytes + 1) key_bytes)"

text \<open>The cells in row-major order.\<close>

definition cells :: "nat \<Rightarrow> (nat \<times> nat) list" where
  "cells R = List.product [0..<R] [0..<R]"

subsection \<open>The step as section 4.2 of the specification words it\<close>

text \<open>
  The neighbour coordinate with toroidal wraparound: right is \<open>(x, (y+1) mod R)\<close>, left is
  \<open>(x, (y-1) mod R)\<close>, up is \<open>((x-1) mod R, y)\<close>, down is \<open>((x+1) mod R, y)\<close>.
\<close>

definition neighbor :: "nat \<Rightarrow> nat \<times> nat \<Rightarrow> direction \<Rightarrow> nat \<times> nat" where
  "neighbor R p d =
     (case d of
        Right \<Rightarrow> (fst p, nat ((int (snd p) + 1) mod int R))
      | Left \<Rightarrow> (fst p, nat ((int (snd p) - 1) mod int R))
      | Up \<Rightarrow> (nat ((int (fst p) - 1) mod int R), snd p)
      | Down \<Rightarrow> (nat ((int (fst p) + 1) mod int R), snd p))"

text \<open>The rule whose colour is \<open>v\<close>, unique in a palette; none is a no-op.\<close>

definition rule_of :: "color list \<Rightarrow> rgb \<Rightarrow> color option" where
  "rule_of palette v = (case filter (\<lambda>c. rgb c = v) palette of [c] \<Rightarrow> Some c | _ \<Rightarrow> None)"

text \<open>
  One cell of the scan: reads are from \<open>grid\<close>, the swap is written into \<open>grid'\<close>.
\<close>

definition step_cell :: "nat \<Rightarrow> color list \<Rightarrow> image \<Rightarrow> nat \<times> nat \<Rightarrow> image \<Rightarrow> image" where
  "step_cell R palette grid p grid' =
     (case rule_of palette (grid ! fst p ! snd p) of
        None \<Rightarrow> grid'
      | Some rule \<Rightarrow>
          (let q = neighbor R p (check_direction rule) in
           if grid ! fst q ! snd q \<in> set (activation_colors rule)
           then poke (poke grid' (fst p) (snd p) (grid ! fst q ! snd q)) (fst q) (snd q)
                  (grid ! fst p ! snd p)
           else grid'))"

text \<open>The scan in row-major order, starting from a copy of the grid.\<close>

definition step_reference :: "nat \<Rightarrow> color list \<Rightarrow> image \<Rightarrow> image" where
  "step_reference R palette grid = fold (step_cell R palette grid) (cells R) grid"

subsection \<open>Run-length encoding as section 4.3 of the specification words it\<close>

text \<open>The runs of a bit string: each maximal block of equal bits, with its length.\<close>

fun runs :: "'a list \<Rightarrow> ('a \<times> nat) list" where
  "runs [] = []"
| "runs (x # xs) =
     (case runs xs of
        [] \<Rightarrow> [(x, 1)]
      | (y, n) # rs \<Rightarrow> if x = y then (y, n + 1) # rs else (x, 1) # (y, n) # rs)"

text \<open>
  Each run is emitted as its bit character followed by the decimal digits of its length,
  with no separator.
\<close>

definition rle :: "string \<Rightarrow> string" where
  "rle bits = concat (map (\<lambda>(b, n). b # decimal n) (runs bits))"

section \<open>Instances used as examples\<close>

text \<open>An instance with one white pixel.\<close>

definition white1 :: adis where
  "white1 = \<lparr>resolution = 1, color_depth = 1, iteration_speed = 2, last_time = 0,
     now_time = 0, iteration_count = 0,
     color_set = [\<lparr>rgb = (255, 255, 255), check_direction = Right, activation_colors = []\<rparr>],
     image_array = [[(255, 255, 255)]], encrypted_string = None, key_image = None\<rparr>"

text \<open>
  Three colours, generated in the order black, grey, white: grey swaps with a black
  right neighbour, white with a grey one. The first row is white, grey, black.
\<close>

definition chain3 :: adis where
  "chain3 = \<lparr>resolution = 3, color_depth = 3, iteration_speed = 1, last_time = 0,
     now_time = 0, iteration_count = 0,
     color_set =
       [\<lparr>rgb = (0, 0, 0), check_direction = Right, activation_colors = []\<rparr>,
        \<lparr>rgb = (9, 9, 9), check_direction = Right, activation_colors = [(0, 0, 0)]\<rparr>,
        \<lparr>rgb = (255, 255, 255), check_direction = Right, activation_colors = [(9, 9, 9)]\<rparr>],
     image_array =
       [[(255, 255, 255), (9, 9, 9), (0, 0, 0)],
        [(0, 0, 0), (0, 0, 0), (0, 0, 0)],
        [(0, 0, 0), (0, 0, 0), (0, 0, 0)]],
     encrypted_string = None, key_image = None\<rparr>"

text \<open>
  Two colours on a 2 x 2 grid: white swaps with a black right neighbour. One white pixel
  at the top left.
\<close>

definition pair2 :: adis where
  "pair2 = \<lparr>resolution = 2, color_depth = 2, iteration_speed = 1, last_time = 0,
     now_time = 0, iteration_count = 0,
     color_set =
       [\<lparr>rgb = (0, 0, 0), check_direction = Left, activation_colors = []\<rparr>,
        \<lparr>rgb = (255, 255, 255), check_direction = Right, activation_colors = [(0, 0, 0)]\<rparr>],
     image_array = [[(255, 255, 255), (0, 0, 0)], [(0, 0, 0), (0, 0, 0)]],
     encrypted_string = None, key_image = None\<rparr>"

text \<open>The instance \<open>pair2\<close> with three ticks due at speed 1.\<close>

definition ticking2 :: adis where
  "ticking2 = pair2\<lparr>last_time := 10, now_time := 13\<rparr>"

text \<open>
  The instance \<open>pair2\<close> after \<^verbatim>\<open>create_adis\<close> has encrypted the text "A" (code point 65):
  the ciphertext and the copy of the array are stored.
\<close>

definition sealed2 :: adis where
  "sealed2 = pair2\<lparr>encrypted_string := Some ''4d'', key_image := Some (image_array pair2)\<rparr>"

text \<open>The same instance one pass later: the white pixel has moved to the right.\<close>

definition evolved2 :: adis where
  "evolved2 = sealed2\<lparr>image_array := [[(0, 0, 0), (255, 255, 255)], [(0, 0, 0), (0, 0, 0)]]\<rparr>"

text \<open>
  A new instance of resolution 2, colour depth 2 and speed 1, as \<^verbatim>\<open>__init__\<close> leaves it,
  and the same after \<^verbatim>\<open>generate_random_colors\<close> has drawn white and then black.
\<close>

definition blank2 :: adis where
  "blank2 = \<lparr>resolution = 2, color_depth = 2, iteration_speed = 1, last_time = 0,
     now_time = 0, iteration_count = 0, color_set = [],
     image_array = [[(0, 0, 0), (0, 0, 0)], [(0, 0, 0), (0, 0, 0)]],
     encrypted_string = None, key_image = None\<rparr>"

definition painted2 :: adis where
  "painted2 = blank2\<lparr>color_set :=
     [\<lparr>rgb = (255, 255, 255), check_direction = Right, activation_colors = []\<rparr>,
      \<lparr>rgb = (0, 0, 0), check_direction = Up, activation_colors = [(255, 255, 255)]\<rparr>]\<rparr>"

section \<open>Loops, arrays and one pass of the automaton\<close>

lemma for_each_append:
  "for_each f (as @ bs) b = (case for_each f as b of Inl e \<Rightarrow> Inl e | Inr b' \<Rightarrow> for_each f bs b')"
  by (induction as arbitrary: b) (auto split: sum.splits)

lemma for_each_map: "for_each f (map g as) b = for_each (\<lambda>a. f (g a)) as b"
  by (induction as arbitrary: b) (auto split: sum.splits)

lemma for_each_product:
  "for_each (\<lambda>x. for_each (\<lambda>y. f x y) ys) xs b = for_each (\<lambda>(x, y). f x y) (List.product xs ys) b"
  by (induction xs arbitrary: b) (auto simp: for_each_append for_each_map split: sum.splits)

lemma for_each_inv:
  assumes "P b" and "\<And>a b. a \<in> set as \<Longrightarrow> P b \<Longrightarrow> \<exists>b'. f a b = Inr b' \<and> P b'"
  shows "\<exists>b'. for_each f as b = Inr b' \<and> P b'"
  using assms
proof (induction as arbitrary: b)
  case Nil
  then show ?case by simp
next
  case (Cons a as)
  from Cons.prems obtain b1 where b1: "f a b = Inr b1" "P b1"
    by (meson list.set_intros(1))
  have "\<exists>b'. for_each f as b1 = Inr b' \<and> P b'"
    by (rule Cons.IH [OF b1(2)]) (simp add: Cons.prems(2))
  with b1 show ?case by simp
qed

lemma for_each_preserves:
  assumes "for_each f as b = Inr b'" and "P b"
    and "\<And>a b b'. a \<in> set as \<Longrightarrow> P b \<Longrightarrow> f a b = Inr b' \<Longrightarrow> P b'"
  shows "P b'"
  using assms
proof (induction as arbitrary: b)
  case Nil
  then show ?case by simp
next
  case (Cons a as)
  from Cons.prems(1) obtain b1 where b1: "f a b = Inr b1" "for_each f as b1 = Inr b'"
    by (auto split: sum.splits)
  have pb1: "P b1" using Cons.prems(3) [of a b b1] Cons.prems(2) b1(1) by simp
  show ?case
  proof (rule Cons.IH [OF b1(2) pb1])
    fix a' c c' assume "a' \<in> set as" "P c" "f a' c = Inr c'"
    then show "P c'" using Cons.prems(3) [of a' c c'] by simp
  qed
qed

lemma set_pixel_shape: "set_pixel a x y v = Inr a' \<Longrightarrow> map length a' = map length a"
  by (auto simp: set_pixel_def map_update list_update_same_conv split: if_splits)

lemma mset_concat_update:
  assumes "x < length a" "y < length (a ! x)"
  shows "mset (concat (a[x := (a ! x)[y := v]])) = add_mset v (mset (concat a) - {#a ! x ! y#})"
proof -
  define pre where "pre = take x a"
  define post where "post = drop (Suc x) a"
  define row where "row = a ! x"
  have a: "a = pre @ row # post"
    using assms(1) by (simp add: id_take_nth_drop pre_def post_def row_def)
  have u: "a[x := row[y := v]] = pre @ row[y := v] # post"
    using assms(1) by (simp add: upd_conv_take_nth_drop pre_def post_def)
  have m: "row ! y \<in># mset row" using assms(2) by (simp add: row_def)
  have 1: "mset (concat a) = (mset (concat pre) + mset (concat post)) + mset row"
    by (subst a) simp
  have 2: "mset (concat (a[x := row[y := v]])) =
      add_mset v ((mset (concat pre) + mset (concat post)) + (mset row - {#row ! y#}))"
    using assms(2) [folded row_def] by (simp add: u mset_update ac_simps)
  have "mset (concat (a[x := row[y := v]])) = add_mset v (mset (concat a) - {#row ! y#})"
    unfolding 1 2 using m by (simp only: diff_union_single_conv)
  then show ?thesis by (simp add: row_def)
qed

lemma wf_get_pixel:
  "wf_image R a \<Longrightarrow> x < R \<Longrightarrow> y < R \<Longrightarrow> get_pixel a x y = Inr (a ! x ! y)"
  by (simp add: wf_image_def list_all_iff get_pixel_def)

lemma get_check_position_range:
  "get_check_position R x y d = Inr (cx, cy) \<Longrightarrow> x < R \<Longrightarrow> y < R \<Longrightarrow> cx < R \<and> cy < R"
  by (cases d) (auto split: if_splits simp: nat_less_iff get_check_position_def)

lemma get_check_position_ok:
  "0 < R \<Longrightarrow> \<exists>cx cy. get_check_position R x y d = Inr (cx, cy)"
  by (cases d) (auto simp: get_check_position_def)

lemma shape_get_pixel:
  "map length b = map length a \<Longrightarrow> x < length a \<Longrightarrow> y < length (a ! x) \<Longrightarrow>
   set_pixel b x y v = Inr (b[x := (b ! x)[y := v]])"
proof -
  assume h: "map length b = map length a" "x < length a" "y < length (a ! x)"
  from h(1) have l: "length b = length a" by (metis length_map)
  from h(1,2) l have "length (b ! x) = length (a ! x)" by (metis nth_map)
  with h l show ?thesis by (simp add: set_pixel_def)
qed

lemma nth_update2:
  "i < length a \<Longrightarrow> j < length (a ! i) \<Longrightarrow> x < length a \<Longrightarrow>
   a[x := (a ! x)[y := v]] ! i ! j = (if i = x \<and> j = y then v else a ! i ! j)"
  by (cases "i = x") auto

lemma shape_update2: "x < length a \<Longrightarrow> map length (a[x := (a ! x)[y := v]]) = map length a"
  by (simp add: map_update list_update_same_conv)

lemma iterate_cell_swap:
  assumes "wf_image R (image_array s)" "resolution s = R" "x < R" "y < R"
    "map length new = map length (image_array s)"
  shows "iterate_cell s x y new =
    (case swap_target s x y of
       None \<Rightarrow> Inr new
     | Some (cx, cy) \<Rightarrow>
         Inr ((new[x := (new ! x)[y := image_array s ! cx ! cy]])
                [cx := ((new[x := (new ! x)[y := image_array s ! cx ! cy]]) ! cx)
                          [cy := image_array s ! x ! y]]))"
proof -
  let ?g = "image_array s"
  have g: "get_pixel ?g x y = Inr (?g ! x ! y)" using assms by (simp add: wf_get_pixel)
  have R: "0 < R" using assms(3) by simp
  have lg: "length ?g = R" and lr: "\<And>i. i < R \<Longrightarrow> length (?g ! i) = R"
    using assms(1) by (auto simp: wf_image_def list_all_iff)
  show ?thesis
  proof (cases "find (\<lambda>c. rgb c = ?g ! x ! y) (color_set s)")
    case None
    then show ?thesis by (simp add: iterate_cell_def swap_target_def g)
  next
    case (Some c)
    from get_check_position_ok [OF R] obtain cx cy
      where cp: "get_check_position R x y (check_direction c) = Inr (cx, cy)" by blast
    from get_check_position_range [OF cp assms(3,4)] have cr: "cx < R" "cy < R" by simp_all
    have gc: "get_pixel ?g cx cy = Inr (?g ! cx ! cy)" using assms(1) cr by (simp add: wf_get_pixel)
    have s1: "set_pixel new x y v = Inr (new[x := (new ! x)[y := v]])" for v
      using shape_get_pixel [OF assms(5)] assms(3,4) lg lr by simp
    have ln: "length new = R" using assms(5) lg by (metis length_map)
    have sh1: "map length (new[x := (new ! x)[y := v]]) = map length ?g" for v
      using assms(3,5) ln by (simp only: shape_update2)
    have s2: "set_pixel (new[x := (new ! x)[y := v]]) cx cy w =
        Inr ((new[x := (new ! x)[y := v]])[cx := ((new[x := (new ! x)[y := v]]) ! cx)[cy := w]])" for v w
      using shape_get_pixel [OF sh1] cr lg lr by simp
    show ?thesis
      using Some assms(2) by (simp add: iterate_cell_def swap_target_def g cp gc s1 s2)
  qed
qed

lemma wf_shape: "wf_image R a \<Longrightarrow> map length a = replicate R R"
  by (auto simp: wf_image_def list_all_iff intro: replicate_eqI)

lemma wf_poke: "wf_image R a \<Longrightarrow> x < R \<Longrightarrow> wf_image R (poke a x y v)"
  by (auto simp: wf_image_def list_all_iff poke_def dest!: set_update_subset_insert [THEN subsetD])

lemma poke_nth:
  "wf_image R a \<Longrightarrow> i < R \<Longrightarrow> j < R \<Longrightarrow> x < R \<Longrightarrow>
   poke a x y v ! i ! j = (if i = x \<and> j = y then v else a ! i ! j)"
  unfolding poke_def by (rule nth_update2) (auto simp: wf_image_def list_all_iff)

lemma poke_mset:
  "wf_image R a \<Longrightarrow> x < R \<Longrightarrow> y < R \<Longrightarrow>
   mset (concat (poke a x y v)) = add_mset v (mset (concat a) - {#a ! x ! y#})"
  unfolding poke_def by (rule mset_concat_update) (auto simp: wf_image_def list_all_iff)

lemma poke_cells:
  assumes "wf_image R a" "x < R" "y < R"
  shows "set (concat (poke a x y v)) \<subseteq> insert v (set (concat a))"
proof -
  have "set_mset (mset (concat (poke a x y v))) \<subseteq> insert v (set_mset (mset (concat a)))"
    unfolding poke_mset [OF assms] by (auto dest: in_diffD)
  then show ?thesis by (simp only: set_mset_mset)
qed

lemma wf_cell_mem:
  "wf_image R a \<Longrightarrow> x < R \<Longrightarrow> y < R \<Longrightarrow> a ! x ! y \<in> set (concat a)"
  by (auto simp: wf_image_def list_all_iff) (metis nth_mem)

lemma swap_target_range:
  assumes "swap_target s x y = Some (cx, cy)" "x < resolution s" "y < resolution s"
  shows "cx < resolution s \<and> cy < resolution s"
  using assms
  by (auto simp: swap_target_def split: sum.splits option.splits if_splits
        dest: get_check_position_range)

lemma iterate_cell_poke:
  assumes "wf_image R (image_array s)" "resolution s = R" "x < R" "y < R" "wf_image R new"
  shows "iterate_cell s x y new =
    (case swap_target s x y of
       None \<Rightarrow> Inr new
     | Some (cx, cy) \<Rightarrow>
         Inr (poke (poke new x y (image_array s ! cx ! cy)) cx cy (image_array s ! x ! y)))"
proof -
  have "map length new = map length (image_array s)"
    using assms(1,5) by (simp add: wf_shape)
  from iterate_cell_swap [OF assms(1-4) this] show ?thesis unfolding poke_def .
qed

lemma iterate_cell_wf:
  assumes "wf_image R (image_array s)" "resolution s = R" "x < R" "y < R" "wf_image R new"
  shows "\<exists>new'. iterate_cell s x y new = Inr new' \<and> wf_image R new' \<and>
           set (concat new') \<subseteq> set (concat new) \<union> set (concat (image_array s))"
proof (cases "swap_target s x y")
  case None
  then show ?thesis using assms by (simp add: iterate_cell_poke [OF assms])
next
  case (Some q)
  obtain cx cy where q: "q = (cx, cy)" by (cases q)
  from swap_target_range [of s x y cx cy] Some q assms
  have cr: "cx < R" "cy < R" by simp_all
  let ?g = "image_array s"
  let ?n1 = "poke new x y (?g ! cx ! cy)"
  let ?n2 = "poke ?n1 cx cy (?g ! x ! y)"
  have w1: "wf_image R ?n1" using assms by (simp add: wf_poke)
  have w2: "wf_image R ?n2" using w1 cr by (simp add: wf_poke)
  have c1: "set (concat ?n1) \<subseteq> insert (?g ! cx ! cy) (set (concat new))"
    by (rule poke_cells [OF assms(5,3,4)])
  have c2: "set (concat ?n2) \<subseteq> insert (?g ! x ! y) (set (concat ?n1))"
    by (rule poke_cells [OF w1 cr])
  have m: "?g ! cx ! cy \<in> set (concat ?g)" "?g ! x ! y \<in> set (concat ?g)"
    by (rule wf_cell_mem [OF assms(1) cr], rule wf_cell_mem [OF assms(1,3,4)])
  have "set (concat ?n2) \<subseteq> set (concat new) \<union> set (concat ?g)"
    using c1 c2 m by blast
  then show ?thesis using Some q w2 by (simp add: iterate_cell_poke [OF assms])
qed

lemma cells_in_range: "(x, y) \<in> set (cells R) \<Longrightarrow> x < R \<and> y < R"
  by (simp add: cells_def)

lemma iterate_once_wf:
  assumes "wf_image R (image_array s)" "resolution s = R"
  shows "\<exists>new. iterate_once s = Inr (s\<lparr>image_array := new\<rparr>) \<and> wf_image R new \<and>
           set (concat new) \<subseteq> set (concat (image_array s))"
proof -
  let ?g = "image_array s"
  let ?P = "\<lambda>new. wf_image R new \<and> set (concat new) \<subseteq> set (concat ?g)"
  have "\<exists>new. for_each (\<lambda>(x, y). iterate_cell s x y) (cells R) ?g = Inr new
          \<and> ?P new"
  proof (rule for_each_inv)
    show "?P ?g" using assms by simp
  next
    fix a new assume a: "a \<in> set (cells R)" and p: "?P new"
    obtain x y where xy: "a = (x, y)" by (cases a)
    with a have r: "x < R" "y < R" by (simp_all add: cells_def)
    from p have wn: "wf_image R new" and sn: "set (concat new) \<subseteq> set (concat ?g)"
      by blast+
    from iterate_cell_wf [OF assms r wn] obtain new'
      where n: "iterate_cell s x y new = Inr new'" "wf_image R new'"
        "set (concat new') \<subseteq> set (concat new) \<union> set (concat ?g)" by blast
    from n(3) sn have "set (concat new') \<subseteq> set (concat ?g)" by blast
    with n(1,2) xy
    show "\<exists>b'. (case a of (x, y) \<Rightarrow> iterate_cell s x y) new = Inr b' \<and> ?P b'"
      by simp
  qed
  then show ?thesis
    by (auto simp: iterate_once_def assms(2) for_each_product cells_def)
qed

lemma touched_range:
  assumes "\<forall>p \<in> set cs. fst p < resolution s \<and> snd p < resolution s"
  shows "\<forall>p \<in> set (touched s cs). fst p < resolution s \<and> snd p < resolution s"
  using assms
proof (induction cs)
  case Nil
  then show ?case by simp
next
  case (Cons p cs)
  obtain x y where p: "p = (x, y)" by (cases p)
  from Cons.prems p have r: "x < resolution s" "y < resolution s" by simp_all
  from Cons have ih: "\<forall>p \<in> set (touched s cs). fst p < resolution s \<and> snd p < resolution s"
    by simp
  show ?case
  proof (cases "swap_target s x y")
    case None
    with ih p show ?thesis by simp
  next
    case (Some q)
    obtain cx cy where q: "q = (cx, cy)" by (cases q)
    from swap_target_range [of s x y cx cy] Some q r
    have "cx < resolution s" "cy < resolution s" by simp_all
    with ih p Some q r show ?thesis by simp
  qed
qed

lemma mset_swap_back:
  assumes "a \<in># M"
  shows "add_mset a (add_mset b (M - {#a#}) - {#b#}) = M"
  using assms by simp

lemma for_each_cells_mset:
  assumes wf: "wf_image R (image_array s)" and res: "resolution s = R"
  shows "\<forall>p \<in> set cs. fst p < R \<and> snd p < R \<Longrightarrow> distinct (touched s cs) \<Longrightarrow>
    wf_image R new \<Longrightarrow> mset (concat new) = mset (concat (image_array s)) \<Longrightarrow>
    \<forall>p \<in> set (touched s cs). new ! fst p ! snd p = image_array s ! fst p ! snd p \<Longrightarrow>
    \<exists>new'. for_each (\<lambda>(x, y). iterate_cell s x y) cs new = Inr new' \<and> wf_image R new' \<and>
       mset (concat new') = mset (concat (image_array s))"
proof (induction cs arbitrary: new)
  case Nil
  then show ?case by simp
next
  case (Cons p cs)
  let ?g = "image_array s"
  obtain x y where p: "p = (x, y)" by (cases p)
  from Cons.prems(1) p have r: "x < R" "y < R" by simp_all
  from Cons.prems(1) have rcs: "\<forall>p \<in> set cs. fst p < R \<and> snd p < R" by simp
  note cell = iterate_cell_poke [OF wf res r Cons.prems(3)]
  show ?case
  proof (cases "swap_target s x y")
    case None
    have "\<exists>new'. for_each (\<lambda>(x, y). iterate_cell s x y) cs new = Inr new' \<and> wf_image R new' \<and>
       mset (concat new') = mset (concat ?g)"
      using Cons.prems None p by (intro Cons.IH rcs) simp_all
    then show ?thesis using None p by (simp add: cell)
  next
    case (Some q)
    obtain cx cy where q: "q = (cx, cy)" by (cases q)
    from swap_target_range [of s x y cx cy] Some q r res
    have cr: "cx < R" "cy < R" by simp_all
    have t: "touched s (p # cs) = (x, y) # (cx, cy) # touched s cs"
      using Some p q by simp
    from Cons.prems(2) t have ne: "(x, y) \<noteq> (cx, cy)" and d: "distinct (touched s cs)"
      and nx: "(x, y) \<notin> set (touched s cs)" and nc: "(cx, cy) \<notin> set (touched s cs)"
      by auto
    from Cons.prems(5) t have ex: "new ! x ! y = ?g ! x ! y" and ec: "new ! cx ! cy = ?g ! cx ! cy"
      and et: "\<forall>p \<in> set (touched s cs). new ! fst p ! snd p = ?g ! fst p ! snd p"
      by auto
    let ?n1 = "poke new x y (?g ! cx ! cy)"
    let ?n2 = "poke ?n1 cx cy (?g ! x ! y)"
    have w1: "wf_image R ?n1" using Cons.prems(3) r by (simp add: wf_poke)
    have w2: "wf_image R ?n2" using w1 cr by (simp add: wf_poke)
    have m1: "mset (concat ?n1) = add_mset (?g ! cx ! cy) (mset (concat new) - {#?g ! x ! y#})"
      using poke_mset [OF Cons.prems(3) r] ex by simp
    have n1c: "?n1 ! cx ! cy = ?g ! cx ! cy"
      using poke_nth [OF Cons.prems(3) cr r(1)] ne ec by auto
    have m2: "mset (concat ?n2) = add_mset (?g ! x ! y) (mset (concat ?n1) - {#?g ! cx ! cy#})"
      using poke_mset [OF w1 cr] n1c by simp
    have mem: "?g ! x ! y \<in># mset (concat new)"
      using wf_cell_mem [OF Cons.prems(3) r] ex by simp
    have m: "mset (concat ?n2) = mset (concat ?g)"
      unfolding m2 m1 using mset_swap_back [OF mem] Cons.prems(4) by simp
    have tr: "\<forall>p \<in> set (touched s cs). fst p < R \<and> snd p < R"
      using touched_range [of cs s] rcs res by simp
    have e2: "\<forall>p \<in> set (touched s cs). ?n2 ! fst p ! snd p = ?g ! fst p ! snd p"
    proof
      fix p' assume p': "p' \<in> set (touched s cs)"
      obtain i j where ij: "p' = (i, j)" by (cases p')
      from tr p' ij have ir: "i < R" "j < R" by auto
      from p' ij nx nc have ne1: "(i, j) \<noteq> (x, y)" and ne2: "(i, j) \<noteq> (cx, cy)" by auto
      have "?n2 ! i ! j = ?n1 ! i ! j"
        using poke_nth [OF w1 ir cr(1)] ne2 by auto
      also have "\<dots> = new ! i ! j"
        using poke_nth [OF Cons.prems(3) ir r(1)] ne1 by auto
      also have "\<dots> = ?g ! i ! j" using et p' ij by auto
      finally show "?n2 ! fst p' ! snd p' = ?g ! fst p' ! snd p'" using ij by simp
    qed
    have "\<exists>new'. for_each (\<lambda>(x, y). iterate_cell s x y) cs ?n2 = Inr new' \<and> wf_image R new' \<and>
       mset (concat new') = mset (concat ?g)"
      by (rule Cons.IH [OF rcs d w2 m e2])
    then show ?thesis using Some p q by (simp add: cell)
  qed
qed

lemma iterate_once_mset:
  assumes "wf_image R (image_array s)" "resolution s = R" "distinct (touched s (cells R))"
  shows "\<exists>new. iterate_once s = Inr (s\<lparr>image_array := new\<rparr>) \<and> wf_image R new \<and>
           mset (concat new) = mset (concat (image_array s))"
proof -
  have "\<exists>new'. for_each (\<lambda>(x, y). iterate_cell s x y) (cells R) (image_array s) = Inr new' \<and>
       wf_image R new' \<and> mset (concat new') = mset (concat (image_array s))"
    by (rule for_each_cells_mset [OF assms(1,2)])
       (use assms in \<open>auto simp: cells_def\<close>)
  then show ?thesis
    by (auto simp: iterate_once_def assms(2) for_each_product cells_def)
qed

lemma iterate_loop_wf:
  "wf_image R (image_array s) \<Longrightarrow> resolution s = R \<Longrightarrow>
   \<exists>new. iterate_loop n s = Inr (s\<lparr>image_array := new, iteration_count := iteration_count s + int n\<rparr>)
     \<and> wf_image R new \<and> set (concat new) \<subseteq> set (concat (image_array s))"
proof (induction n arbitrary: s)
  case 0
  then show ?case by (intro exI [of _ "image_array s"]) simp
next
  case (Suc n)
  from iterate_once_wf [OF Suc.prems] obtain new
    where o: "iterate_once s = Inr (s\<lparr>image_array := new\<rparr>)" "wf_image R new"
      "set (concat new) \<subseteq> set (concat (image_array s))" by blast
  let ?t = "s\<lparr>image_array := new, iteration_count := iteration_count s + 1\<rparr>"
  have "wf_image R (image_array ?t)" "resolution ?t = R" using o(2) Suc.prems(2) by simp_all
  from Suc.IH [OF this] obtain new2
    where l: "iterate_loop n ?t =
        Inr (?t\<lparr>image_array := new2, iteration_count := iteration_count ?t + int n\<rparr>)"
      "wf_image R new2" "set (concat new2) \<subseteq> set (concat (image_array ?t))" by blast
  have "iterate_loop (Suc n) s =
      Inr (s\<lparr>image_array := new2, iteration_count := iteration_count s + int (Suc n)\<rparr>)"
    using o(1) l(1) by (simp add: add.commute add.left_commute)
  moreover have "set (concat new2) \<subseteq> set (concat (image_array s))"
    using l(3) o(3) by simp
  ultimately show ?case using l(2) by blast
qed

section \<open>The pass and the reference algorithm\<close>

lemma rule_of_find:
  "distinct (map rgb palette) \<Longrightarrow> rule_of palette v = find (\<lambda>c. rgb c = v) palette"
proof (induction palette)
  case Nil
  then show ?case by (simp add: rule_of_def)
next
  case (Cons a palette)
  show ?case
  proof (cases "rgb a = v")
    case True
    with Cons.prems have "v \<notin> rgb ` set palette" by auto
    then have "filter (\<lambda>c. rgb c = v) palette = []" by (auto simp: filter_empty_conv)
    with True show ?thesis by (simp add: rule_of_def)
  next
    case False
    with Cons show ?thesis by (simp add: rule_of_def)
  qed
qed

lemma get_check_position_neighbor:
  "0 < R \<Longrightarrow> get_check_position R x y d = Inr (neighbor R (x, y) d)"
  by (cases d) (simp_all add: get_check_position_def neighbor_def)

lemma step_cell_swap_target:
  assumes "wf_image R (image_array s)" "resolution s = R" "x < R" "y < R"
    "distinct (map rgb (color_set s))"
  shows "step_cell R (color_set s) (image_array s) (x, y) new =
    (case swap_target s x y of
       None \<Rightarrow> new
     | Some (cx, cy) \<Rightarrow>
         poke (poke new x y (image_array s ! cx ! cy)) cx cy (image_array s ! x ! y))"
proof -
  let ?g = "image_array s"
  have R: "0 < R" using assms(3) by simp
  have g: "get_pixel ?g x y = Inr (?g ! x ! y)" using assms by (simp add: wf_get_pixel)
  show ?thesis
  proof (cases "find (\<lambda>c. rgb c = ?g ! x ! y) (color_set s)")
    case None
    then show ?thesis
      by (simp add: step_cell_def swap_target_def g rule_of_find [OF assms(5)])
  next
    case (Some c)
    obtain cx cy where n: "neighbor R (x, y) (check_direction c) = (cx, cy)"
      by (cases "neighbor R (x, y) (check_direction c)")
    have cp: "get_check_position R x y (check_direction c) = Inr (cx, cy)"
      using get_check_position_neighbor [OF R] n by simp
    from get_check_position_range [OF cp assms(3,4)] have cr: "cx < R" "cy < R" by simp_all
    have gc: "get_pixel ?g cx cy = Inr (?g ! cx ! cy)"
      using assms(1) cr by (simp add: wf_get_pixel)
    show ?thesis
      using Some assms(2)
      by (simp add: step_cell_def swap_target_def g rule_of_find [OF assms(5)] n cp gc)
  qed
qed

lemma for_each_cells_fold:
  assumes wf: "wf_image R (image_array s)" and res: "resolution s = R"
    and pal: "distinct (map rgb (color_set s))"
  shows "\<forall>p \<in> set cs. fst p < R \<and> snd p < R \<Longrightarrow> wf_image R new \<Longrightarrow>
    for_each (\<lambda>(x, y). iterate_cell s x y) cs new =
      Inr (fold (step_cell R (color_set s) (image_array s)) cs new)"
proof (induction cs arbitrary: new)
  case Nil
  then show ?case by simp
next
  case (Cons p cs)
  obtain x y where p: "p = (x, y)" by (cases p)
  from Cons.prems(1) p have r: "x < R" "y < R" by simp_all
  from Cons.prems(1) have rcs: "\<forall>p \<in> set cs. fst p < R \<and> snd p < R" by simp
  let ?n = "step_cell R (color_set s) (image_array s) (x, y) new"
  have c: "iterate_cell s x y new = Inr ?n"
    unfolding iterate_cell_poke [OF wf res r Cons.prems(2)]
      step_cell_swap_target [OF wf res r pal]
    by (simp split: option.splits)
  from iterate_cell_wf [OF wf res r Cons.prems(2)] c have w: "wf_image R ?n" by auto
  show ?case using Cons.IH [OF rcs w] c p by simp
qed

section \<open>The key string\<close>

subsection \<open>Serialisation\<close>

lemma length_format_08b: "length (format_08b v) = 8"
  by (simp add: format_08b_def)

lemma format_08b_bits: "set (format_08b v) \<subseteq> {CHR ''0'', CHR ''1''}"
  by (auto simp: format_08b_def)

lemma length_pixel_bits: "length (pixel_bits p) = 24"
  by (cases p) (simp add: pixel_bits_def length_format_08b)

lemma pixel_bits_bits: "set (pixel_bits p) \<subseteq> {CHR ''0'', CHR ''1''}"
  using format_08b_bits by (cases p) (auto simp: pixel_bits_def)

lemma append_pixel_wf:
  "wf_image R (image_array s) \<Longrightarrow> x < R \<Longrightarrow> y < R \<Longrightarrow>
   append_pixel s x y binary = Inr (binary @ pixel_bits (image_array s ! x ! y))"
  by (simp add: append_pixel_def wf_get_pixel pixel_bits_def split: prod.splits)

lemma for_each_append_pixel:
  assumes "wf_image R (image_array s)"
  shows "\<forall>p \<in> set cs. fst p < R \<and> snd p < R \<Longrightarrow>
    for_each (\<lambda>(x, y). append_pixel s x y) cs binary =
      Inr (binary @ concat (map (\<lambda>(x, y). pixel_bits (image_array s ! x ! y)) cs))"
proof (induction cs arbitrary: binary)
  case Nil
  then show ?case by simp
next
  case (Cons p cs)
  obtain x y where p: "p = (x, y)" by (cases p)
  from Cons.prems p have r: "x < R" "y < R" by simp_all
  from Cons.prems have rcs: "\<forall>p \<in> set cs. fst p < R \<and> snd p < R" by simp
  show ?case using Cons.IH [OF rcs] p by (simp add: append_pixel_wf [OF assms r])
qed

lemma serialize_wf:
  assumes "wf_image R (image_array s)" "resolution s = R"
  shows "serialize s =
    Inr (concat (map (\<lambda>(x, y). pixel_bits (image_array s ! x ! y)) (cells R)))"
proof -
  have "for_each (\<lambda>(x, y). append_pixel s x y) (cells R) [] =
      Inr ([] @ concat (map (\<lambda>(x, y). pixel_bits (image_array s ! x ! y)) (cells R)))"
    by (rule for_each_append_pixel [OF assms(1)]) (auto simp: cells_def)
  then show ?thesis by (simp add: serialize_def assms(2) for_each_product cells_def)
qed

lemma length_concat_const:
  "(\<And>x. x \<in> set xs \<Longrightarrow> length (f x) = k) \<Longrightarrow> length (concat (map f xs)) = k * length xs"
  by (induction xs) simp_all

lemma set_concat_const:
  "(\<And>x. x \<in> set xs \<Longrightarrow> set (f x) \<subseteq> A) \<Longrightarrow> set (concat (map f xs)) \<subseteq> A"
  by auto

lemma length_cells: "length (cells R) = R * R"
  by (simp add: cells_def)

lemma serialize_length:
  assumes "wf_image R (image_array s)" "resolution s = R"
  shows "\<exists>binary. serialize s = Inr binary \<and> length binary = 3 * 8 * R\<^sup>2 \<and>
           set binary \<subseteq> {CHR ''0'', CHR ''1''}"
proof -
  let ?b = "concat (map (\<lambda>(x, y). pixel_bits (image_array s ! x ! y)) (cells R))"
  have "length ?b = 24 * length (cells R)"
    by (rule length_concat_const) (auto simp: length_pixel_bits)
  then have l: "length ?b = 3 * 8 * R\<^sup>2" by (simp add: length_cells power2_eq_square)
  have "set ?b \<subseteq> {CHR ''0'', CHR ''1''}"
  proof (rule set_concat_const)
    fix p :: "nat \<times> nat"
    show "set ((\<lambda>(x, y). pixel_bits (image_array s ! x ! y)) p) \<subseteq> {CHR ''0'', CHR ''1''}"
      by (cases p) (simp only: prod.case pixel_bits_bits)
  qed
  with l serialize_wf [OF assms] show ?thesis by simp
qed

subsection \<open>Digits\<close>

lemma is_digit_digit_char: "d < 10 \<Longrightarrow> is_digit (digit_char d)"
  unfolding is_digit_def digit_char_def by (rule nth_mem) simp

lemma decimal_digits: "list_all is_digit (decimal n)"
proof (induction n rule: decimal.induct)
  case (1 n)
  show ?case
  proof (cases "n < 10")
    case True
    then show ?thesis by (subst decimal.simps) (simp add: is_digit_digit_char)
  next
    case False
    with 1 show ?thesis by (subst decimal.simps) (simp add: is_digit_digit_char)
  qed
qed

lemma decimal_nonempty: "decimal n \<noteq> []"
  by (subst decimal.simps) simp

lemma is_digit_bit: "c \<in> {CHR ''0'', CHR ''1''} \<Longrightarrow> is_digit c"
  by (auto simp: is_digit_def)

lemma digit_val_le: "is_digit c \<Longrightarrow> digit_val c \<le> 9"
  by (auto simp: is_digit_def digit_val_def)

subsection \<open>Compression\<close>

lemma compress_digits:
  "list_all is_digit rest \<Longrightarrow> list_all is_digit compressed \<Longrightarrow> is_digit current_bit \<Longrightarrow>
   list_all is_digit (compress rest compressed current_bit n)"
  by (induction rest compressed current_bit n rule: compress.induct)
     (simp_all add: decimal_digits)

lemma compress_length:
  "length compressed + 2 \<le> length (compress rest compressed current_bit n)"
proof (induction rest compressed current_bit n rule: compress.induct)
  case (1 compressed current_bit n)
  have "1 \<le> length (decimal n)" using decimal_nonempty [of n] by (cases "decimal n") simp_all
  then show ?case by simp
next
  case (2 b rest compressed current_bit n)
  have "1 \<le> length (decimal n)" using decimal_nonempty [of n] by (cases "decimal n") simp_all
  with 2 show ?case by (auto split: if_splits)
qed

lemma runs_Cons: "\<exists>n rs. runs (b # rest) = (b, Suc n) # rs"
  by (cases "runs rest") (auto split: if_splits)

lemma runs_replicate_other:
  "b \<noteq> c \<Longrightarrow> runs (replicate (Suc k) c @ b # rest) = (c, Suc k) # runs (b # rest)"
proof (induction k)
  case 0
  from runs_Cons [of b rest] obtain n rs where "runs (b # rest) = (b, Suc n) # rs" by blast
  with 0 show ?case by simp
next
  case (Suc k)
  then have "runs (replicate (Suc k) c @ b # rest) = (c, Suc k) # runs (b # rest)" by simp
  then show ?case by simp
qed

lemma runs_replicate: "runs (replicate (Suc k) c) = [(c, Suc k)]"
  by (induction k) simp_all

lemma compress_rle:
  "compress rest compressed current_bit (Suc k) =
     compressed @ rle (replicate (Suc k) current_bit @ rest)"
proof (induction rest arbitrary: compressed current_bit k)
  case Nil
  show ?case by (simp add: rle_def runs_replicate del: replicate.simps)
next
  case (Cons b rest)
  show ?case
  proof (cases "b = current_bit")
    case True
    have e: "replicate (Suc (Suc k)) current_bit @ rest =
        replicate (Suc k) current_bit @ current_bit # rest"
      by (simp only: replicate_app_Cons_same replicate_Suc append_Cons)
    have "compress (b # rest) compressed current_bit (Suc k) =
        compress rest compressed current_bit (Suc (Suc k))"
      using True by simp
    also have "\<dots> = compressed @ rle (replicate (Suc (Suc k)) current_bit @ rest)"
      by (rule Cons)
    finally show ?thesis using True by (simp only: e)
  next
    case False
    have "rle (replicate (Suc k) current_bit @ b # rest) =
        current_bit # decimal (Suc k) @ rle (b # rest)"
      unfolding rle_def runs_replicate_other [OF False] by simp
    with False Cons [of "compressed @ current_bit # decimal (Suc k)" b 0] show ?thesis
      by simp
  qed
qed

lemma generate_key_wf:
  assumes "wf_image R (image_array s)" "resolution s = R" "1 \<le> R"
  shows "\<exists>binary key. serialize s = Inr binary \<and> length binary = 3 * 8 * R\<^sup>2 \<and>
           generate_key s = Inr key \<and> key = rle binary \<and> list_all is_digit key \<and>
           2 \<le> length key"
proof -
  from serialize_length [OF assms(1,2)] obtain binary
    where b: "serialize s = Inr binary" "length binary = 3 * 8 * R\<^sup>2"
      "set binary \<subseteq> {CHR ''0'', CHR ''1''}" by blast
  from b(2) assms(3) have "binary \<noteq> []" by auto
  then obtain c rest where cr: "binary = c # rest" by (cases binary) auto
  let ?key = "compress rest [] c 1"
  have k: "generate_key s = Inr ?key" by (simp add: generate_key_def b(1) cr)
  have d: "list_all is_digit binary"
    using b(3) is_digit_bit by (auto simp: list_all_iff)
  have kd: "list_all is_digit ?key" using d cr by (intro compress_digits) simp_all
  have kl: "2 \<le> length ?key" using compress_length [of "[]" rest c 1] by simp
  have "?key = rle binary" using compress_rle [of rest "[]" c 0] cr by simp
  with b k kd kl show ?thesis by simp
qed

subsection \<open>Chunks and their values\<close>

lemma py_int_one: "is_digit a \<Longrightarrow> py_int [a] = Inr (digit_val a)"
  by (simp add: py_int_def)

lemma py_int_two:
  "is_digit a \<Longrightarrow> is_digit b \<Longrightarrow> py_int [a, b] = Inr (10 * digit_val a + digit_val b)"
  by (simp add: py_int_def)

lemma key_bytes_digits:
  "list_all is_digit key \<Longrightarrow>
   \<exists>ks. map_raise py_int (chunks2 key) = Inr ks \<and> length ks = (length key + 1) div 2 \<and>
     (\<forall>k \<in> set ks. k \<le> 99) \<and>
     (odd (length key) \<longrightarrow> last (chunks2 key) = [last key] \<and> last ks \<le> 9)"
proof (induction key rule: chunks2.induct)
  case 1
  then show ?case by simp
next
  case (2 a)
  then show ?case using digit_val_le [of a] by (simp add: py_int_one)
next
  case (3 a b rest)
  then obtain ks where ks: "map_raise py_int (chunks2 rest) = Inr ks"
      "length ks = (length rest + 1) div 2" "\<forall>k \<in> set ks. k \<le> 99"
      "odd (length rest) \<longrightarrow> last (chunks2 rest) = [last rest] \<and> last ks \<le> 9"
    by auto
  from 3(2) have d: "is_digit a" "is_digit b" by simp_all
  have v: "10 * digit_val a + digit_val b \<le> 99"
    using digit_val_le [OF d(1)] digit_val_le [OF d(2)] by simp
  have ne: "odd (length rest) \<Longrightarrow> chunks2 rest \<noteq> [] \<and> ks \<noteq> [] \<and> rest \<noteq> []"
    using ks(2) by (cases rest rule: chunks2.cases) auto
  show ?case using ks v ne by (auto simp: py_int_two [OF d])
qed

section \<open>Successive passes\<close>

lemma iterate_cell_count:
  "iterate_cell (s\<lparr>iteration_count := c\<rparr>) = iterate_cell s"
  by (intro ext)
     (simp add: iterate_cell_def cong: sum.case_cong option.case_cong prod.case_cong if_cong)

lemma iterate_once_count:
  "iterate_once (s\<lparr>iteration_count := c\<rparr>) =
     (case iterate_once s of Inl e \<Rightarrow> Inl e | Inr t \<Rightarrow> Inr (t\<lparr>iteration_count := c\<rparr>))"
  by (simp add: iterate_once_def iterate_cell_count split: sum.splits)

lemma passes_count:
  "passes n (s\<lparr>iteration_count := c\<rparr>) =
     (case passes n s of Inl e \<Rightarrow> Inl e | Inr t \<Rightarrow> Inr (t\<lparr>iteration_count := c\<rparr>))"
proof (induction n arbitrary: s)
  case 0
  show ?case by simp
next
  case (Suc n)
  show ?case
  proof (cases "iterate_once s")
    case (Inl e)
    then show ?thesis by (simp add: iterate_once_count)
  next
    case (Inr t)
    then show ?thesis using Suc [of t] by (simp add: iterate_once_count)
  qed
qed

lemma iterate_loop_passes:
  "iterate_loop n s =
     (case passes n s of
        Inl e \<Rightarrow> Inl e
      | Inr t \<Rightarrow> Inr (t\<lparr>iteration_count := iteration_count s + int n\<rparr>))"
proof (induction n arbitrary: s)
  case 0
  show ?case by simp
next
  case (Suc n)
  show ?case
  proof (cases "iterate_once s")
    case (Inl e)
    then show ?thesis by simp
  next
    case (Inr t)
    have c: "iteration_count t = iteration_count s"
      using Inr by (auto simp: iterate_once_def split: sum.splits)
    show ?thesis
      using Inr Suc [of "t\<lparr>iteration_count := iteration_count t + 1\<rparr>"] c
      by (simp add: passes_count add.assoc split: sum.splits)
  qed
qed

lemma passes_wf:
  "wf_image R (image_array s) \<Longrightarrow> resolution s = R \<Longrightarrow>
   \<exists>new. passes n s = Inr (s\<lparr>image_array := new\<rparr>) \<and> wf_image R new"
proof (induction n arbitrary: s)
  case 0
  then show ?case by (intro exI [of _ "image_array s"]) simp
next
  case (Suc n)
  from iterate_once_wf [OF Suc.prems] obtain new
    where o: "iterate_once s = Inr (s\<lparr>image_array := new\<rparr>)" "wf_image R new" by blast
  let ?t = "s\<lparr>image_array := new\<rparr>"
  have "wf_image R (image_array ?t)" "resolution ?t = R" using o(2) Suc.prems(2) by simp_all
  from Suc.IH [OF this] obtain new2
    where "passes n ?t = Inr (?t\<lparr>image_array := new2\<rparr>)" "wf_image R new2" by blast
  with o(1) show ?case by auto
qed

section \<open>Bytes, hexadecimal and UTF-8\<close>

subsection \<open>The XOR of a byte string with the repeated key\<close>

lemma xor_nat_less:
  assumes "a < 2 ^ n" "b < 2 ^ n"
  shows "a XOR b < (2::nat) ^ n"
proof -
  have "int a XOR int b < 2 ^ n"
    by (rule XOR_upper) (use assms in \<open>simp_all add: of_nat_less_numeral_power_cancel_iff\<close>)
  then have "int (a XOR b) < int (2 ^ n)" by (simp add: of_nat_xor_eq)
  then show ?thesis by (simp only: of_nat_less_iff)
qed

lemma xor_byte_less: "a < 256 \<Longrightarrow> b < 256 \<Longrightarrow> a XOR b < (256::nat)"
  using xor_nat_less [of a 8 b] by simp

lemma length_concat_replicate: "length (concat (replicate m xs)) = m * length xs"
  by (induction m) simp_all

lemma set_concat_replicate: "set (concat (replicate m xs)) \<subseteq> set xs"
  by (induction m) auto

lemma length_key_cycle: "key_bytes \<noteq> [] \<Longrightarrow> n < length (key_cycle n key_bytes)"
proof -
  assume "key_bytes \<noteq> []"
  then have k: "0 < length key_bytes" by simp
  have "n < (n div length key_bytes + 1) * length key_bytes"
    using k by (metis Suc_eq_plus1 dividend_less_div_times mult.commute mult_Suc_right add.commute)
  then show ?thesis by (simp add: key_cycle_def length_concat_replicate)
qed

lemma xor_bytes_ok:
  assumes "key_bytes \<noteq> []" "list_all (\<lambda>b. b < 256) key_bytes" "list_all (\<lambda>b. b < 256) data"
  shows "xor_bytes data key_bytes =
           Inr (map (\<lambda>(a, b). a XOR b) (zip data (key_cycle (length data) key_bytes)))"
proof -
  let ?rep = "key_cycle (length data) key_bytes"
  have "\<forall>p \<in> set (zip data ?rep). fst p < 256 \<and> snd p < 256"
  proof
    fix p assume p: "p \<in> set (zip data ?rep)"
    obtain a b where ab: "p = (a, b)" by (cases p)
    from p ab have "fst p \<in> set data" "snd p \<in> set ?rep"
      by (auto dest: set_zip_leftD set_zip_rightD)
    moreover have "set ?rep \<subseteq> set key_bytes"
      unfolding key_cycle_def by (rule set_concat_replicate)
    ultimately show "fst p < 256 \<and> snd p < 256" using assms(2,3) by (auto simp: list_all_iff)
  qed
  then have "list_all (\<lambda>v. v < 256) (map (\<lambda>(a, b). a XOR b) (zip data ?rep))"
    by (auto simp: list_all_iff xor_byte_less)
  then show ?thesis using assms(1) by (simp add: xor_bytes_def to_bytes_def key_cycle_def)
qed

lemma xor_zip_twice:
  "length data \<le> length rep \<Longrightarrow>
   map (\<lambda>(a, b). a XOR b) (zip (map (\<lambda>(a, b). a XOR b) (zip data rep)) rep) = (data :: nat list)"
proof (induction data arbitrary: rep)
  case Nil
  then show ?case by simp
next
  case (Cons a data)
  then obtain b rep' where r: "rep = b # rep'" by (cases rep) auto
  with Cons have "length data \<le> length rep'" by simp
  from Cons.IH [OF this] r show ?case by (simp add: xor.assoc)
qed

lemma xor_bytes_twice:
  assumes "key_bytes \<noteq> []" "list_all (\<lambda>b. b < 256) key_bytes" "list_all (\<lambda>b. b < 256) data"
  shows "\<exists>enc. xor_bytes data key_bytes = Inr enc \<and> length enc = length data \<and>
           list_all (\<lambda>b. b < 256) enc \<and> xor_bytes enc key_bytes = Inr data"
proof -
  let ?rep = "key_cycle (length data) key_bytes"
  let ?enc = "map (\<lambda>(a, b). a XOR b) (zip data ?rep)"
  have l: "length data \<le> length ?rep" using length_key_cycle [OF assms(1)] by (simp add: less_imp_le)
  have e: "xor_bytes data key_bytes = Inr ?enc" by (rule xor_bytes_ok [OF assms])
  have le: "length ?enc = length data" using l by simp
  have b: "list_all (\<lambda>b. b < 256) ?enc"
    using e assms(1) by (auto simp: xor_bytes_def to_bytes_def key_cycle_def split: if_splits)
  have "xor_bytes ?enc key_bytes =
      Inr (map (\<lambda>(a, b). a XOR b) (zip ?enc (key_cycle (length ?enc) key_bytes)))"
    by (rule xor_bytes_ok [OF assms(1,2) b])
  also have "\<dots> = Inr data" unfolding le using xor_zip_twice [OF l] by simp
  finally show ?thesis using e le b by blast
qed

subsection \<open>Hexadecimal\<close>

lemma hex_digits_table:
  "list_all (\<lambda>d. hex_val (hex_char d) = Some d \<and> \<not> is_space (hex_char d)) [0..<16]"
  by code_simp

lemma hex_char_val: "d < 16 \<Longrightarrow> hex_val (hex_char d) = Some d \<and> \<not> is_space (hex_char d)"
  using hex_digits_table by (simp add: list_all_iff)

lemma fromhex_hex: "list_all (\<lambda>b. b < 256) bs \<Longrightarrow> fromhex (hex bs) = Inr bs"
proof (induction bs)
  case Nil
  then show ?case by (simp add: hex_def)
next
  case (Cons b bs)
  then have b: "b < 256" and ih: "fromhex (hex bs) = Inr bs" by simp_all
  from b have "b div 16 < 16" "b mod 16 < 16" by simp_all
  from hex_char_val [OF this(1)] hex_char_val [OF this(2)] ih
  have "fromhex (hex_char (b div 16) # hex_char (b mod 16) # hex bs) = Inr (b # bs)"
    by simp
  then show ?case by (simp add: hex_def)
qed

subsection \<open>UTF-8\<close>

lemma join_64: "k = q * 64 + r \<Longrightarrow> c = k * 64 + d \<Longrightarrow> c = q * 4096 + r * 64 + (d::nat)"
  by simp

lemma split_4096: "(c::nat) = c div 4096 * 4096 + c div 64 mod 64 * 64 + c mod 64"
proof -
  have a: "c div 64 div 64 = c div 4096" by (simp add: div_mult2_eq [symmetric])
  have "c div 64 = c div 64 div 64 * 64 + c div 64 mod 64" by simp
  then have k: "c div 64 = c div 4096 * 64 + c div 64 mod 64" unfolding a .
  have c: "c = c div 64 * 64 + c mod 64" by simp
  show ?thesis by (rule join_64 [OF k c])
qed

lemma join_4096:
  "k = q * 64 + r \<Longrightarrow> c = k * 4096 + m * 64 + d \<Longrightarrow> c = q * 262144 + r * 4096 + m * 64 + (d::nat)"
  by simp

lemma split_262144:
  "(c::nat) = c div 262144 * 262144 + c div 4096 mod 64 * 4096 + c div 64 mod 64 * 64 + c mod 64"
proof -
  have a: "c div 4096 div 64 = c div 262144" by (simp add: div_mult2_eq [symmetric])
  have "c div 4096 = c div 4096 div 64 * 64 + c div 4096 mod 64" by simp
  then have k: "c div 4096 = c div 262144 * 64 + c div 4096 mod 64" unfolding a .
  show ?thesis by (rule join_4096 [OF k split_4096])
qed

lemma decode1:
  "b0 < 0x80 \<Longrightarrow> decode_utf8 (b0 # rest) = map_sum id ((#) b0) (decode_utf8 rest)"
  by simp

lemma decode2:
  assumes "a < 32" "b < 64" "0x80 \<le> a * 64 + b"
  shows "decode_utf8 ((0xC0 + a) # (0x80 + b) # rest) =
           map_sum id ((#) (a * 64 + b)) (decode_utf8 rest)"
  using assms by (simp add: is_cont_def)

lemma decode3:
  assumes "a < 16" "b < 64" "d < 64" "0x800 \<le> a * 4096 + b * 64 + d"
    "\<not> (0xD800 \<le> a * 4096 + b * 64 + d \<and> a * 4096 + b * 64 + d \<le> 0xDFFF)"
  shows "decode_utf8 ((0xE0 + a) # (0x80 + b) # (0x80 + d) # rest) =
           map_sum id ((#) (a * 4096 + b * 64 + d)) (decode_utf8 rest)"
  using assms by (simp add: is_cont_def)

lemma decode4:
  assumes "a < 8" "b < 64" "d < 64" "e < 64" "0x10000 \<le> a * 262144 + b * 4096 + d * 64 + e"
    "a * 262144 + b * 4096 + d * 64 + e < 0x110000"
  shows "decode_utf8 ((0xF0 + a) # (0x80 + b) # (0x80 + d) # (0x80 + e) # rest) =
           map_sum id ((#) (a * 262144 + b * 4096 + d * 64 + e)) (decode_utf8 rest)"
  using assms by (simp add: is_cont_def)

lemma encode_char_decode:
  assumes "is_scalar c"
  shows "\<exists>bs. encode_char c = Inr bs \<and> list_all (\<lambda>b. b < 256) bs \<and>
           (\<forall>rest. decode_utf8 (bs @ rest) = map_sum id ((#) c) (decode_utf8 rest))"
proof -
  consider "c < 0x80" | "0x80 \<le> c" "c < 0x800" | "0x800 \<le> c" "c < 0x10000"
    | "0x10000 \<le> c" "c < 0x110000"
    using assms unfolding is_scalar_def by linarith
  then show ?thesis
  proof cases
    case 1
    then have "encode_char c = Inr [c]" by (simp add: encode_char_def)
    with 1 show ?thesis by (simp add: decode1 del: decode_utf8.simps)
  next
    case 2
    define a where "a = c div 64"
    define b where "b = c mod 64"
    have c: "a * 64 + b = c" unfolding a_def b_def by simp
    have r: "a < 32" "b < 64" unfolding a_def b_def using 2 by simp_all
    have e: "encode_char c = Inr [0xC0 + a, 0x80 + b]"
      using 2 by (simp add: encode_char_def a_def b_def)
    have "decode_utf8 ((0xC0 + a) # (0x80 + b) # rest) =
        map_sum id ((#) c) (decode_utf8 rest)" for rest
      using decode2 [OF r, of rest] 2(1) unfolding c by simp
    with e r show ?thesis by (simp del: decode_utf8.simps)
  next
    case 3
    define a where "a = c div 4096"
    define b where "b = c div 64 mod 64"
    define d where "d = c mod 64"
    have c: "a * 4096 + b * 64 + d = c"
      unfolding a_def b_def d_def by (rule split_4096 [symmetric])
    have r: "a < 16" "b < 64" "d < 64" unfolding a_def b_def d_def using 3 by simp_all
    have ns: "\<not> (0xD800 \<le> c \<and> c \<le> 0xDFFF)" using assms by (simp add: is_scalar_def)
    have e: "encode_char c = Inr [0xE0 + a, 0x80 + b, 0x80 + d]"
      using 3 ns by (simp add: encode_char_def a_def b_def d_def)
    have "decode_utf8 ((0xE0 + a) # (0x80 + b) # (0x80 + d) # rest) =
        map_sum id ((#) c) (decode_utf8 rest)" for rest
      using decode3 [OF r, of rest] 3(1) ns unfolding c by simp
    with e r show ?thesis by (simp del: decode_utf8.simps)
  next
    case 4
    define a where "a = c div 262144"
    define b where "b = c div 4096 mod 64"
    define d where "d = c div 64 mod 64"
    define e where "e = c mod 64"
    have c: "a * 262144 + b * 4096 + d * 64 + e = c"
      unfolding a_def b_def d_def e_def by (rule split_262144 [symmetric])
    have r: "a < 8" "b < 64" "d < 64" "e < 64"
      unfolding a_def b_def d_def e_def using 4 by simp_all
    have en: "encode_char c = Inr [0xF0 + a, 0x80 + b, 0x80 + d, 0x80 + e]"
      using 4 by (simp add: encode_char_def a_def b_def d_def e_def)
    have "decode_utf8 ((0xF0 + a) # (0x80 + b) # (0x80 + d) # (0x80 + e) # rest) =
        map_sum id ((#) c) (decode_utf8 rest)" for rest
      using decode4 [OF r, of rest] 4 unfolding c by simp
    with en r show ?thesis by (simp del: decode_utf8.simps)
  qed
qed

lemma encode_utf8_decode:
  "list_all is_scalar cps \<Longrightarrow>
   \<exists>bs. encode_utf8 cps = Inr bs \<and> list_all (\<lambda>b. b < 256) bs \<and> decode_utf8 bs = Inr cps"
proof (induction cps)
  case Nil
  then show ?case by simp
next
  case (Cons c cps)
  then obtain rest where r: "encode_utf8 cps = Inr rest" "list_all (\<lambda>b. b < 256) rest"
      "decode_utf8 rest = Inr cps" by auto
  from Cons.prems have "is_scalar c" by simp
  from encode_char_decode [OF this] obtain bs
    where b: "encode_char c = Inr bs" "list_all (\<lambda>b. b < 256) bs"
      "\<forall>rest. decode_utf8 (bs @ rest) = map_sum id ((#) c) (decode_utf8 rest)" by blast
  from b(3) r(3) have "decode_utf8 (bs @ rest) = Inr (c # cps)" by simp
  with r b show ?case by simp
qed

subsection \<open>The round trip\<close>

lemma cipher_roundtrip:
  assumes "key_bytes \<noteq> []" "list_all (\<lambda>b. b < 256) key_bytes" "list_all is_scalar cps"
  shows "\<exists>text_bytes encrypted_bytes.
           encode_utf8 cps = Inr text_bytes \<and>
           xor_bytes text_bytes key_bytes = Inr encrypted_bytes \<and>
           fromhex (hex encrypted_bytes) = Inr encrypted_bytes \<and>
           xor_bytes encrypted_bytes key_bytes = Inr text_bytes \<and>
           decode_utf8 text_bytes = Inr cps"
proof -
  from encode_utf8_decode [OF assms(3)] obtain text_bytes
    where t: "encode_utf8 cps = Inr text_bytes" "list_all (\<lambda>b. b < 256) text_bytes"
      "decode_utf8 text_bytes = Inr cps" by blast
  from xor_bytes_twice [OF assms(1,2) t(2)] obtain enc
    where e: "xor_bytes text_bytes key_bytes = Inr enc" "list_all (\<lambda>b. b < 256) enc"
      "xor_bytes enc key_bytes = Inr text_bytes" by blast
  from fromhex_hex [OF e(2)] t e show ?thesis by blast
qed

section \<open>The key image\<close>

lemma append_pixel_key_image: "append_pixel (s\<lparr>key_image := k\<rparr>) = append_pixel s"
  by (intro ext) (simp add: append_pixel_def)

lemma generate_key_key_image: "generate_key (s\<lparr>key_image := k\<rparr>) = generate_key s"
  by (simp add: generate_key_def serialize_def append_pixel_key_image)

lemma decrypt_string_key_image:
  "decrypt_string (s\<lparr>key_image := k\<rparr>) encrypted_hex = decrypt_string s encrypted_hex"
  by (simp add: decrypt_string_def generate_key_key_image)

section \<open>The random draws of the palette\<close>

lemma randint_ok: "a \<le> b \<Longrightarrow> \<exists>v. randint a b r = Inr v \<and> a \<le> v \<and> v \<le> b"
proof -
  assume ab: "a \<le> b"
  then have p: "0 < b - a + 1" by simp
  have "0 \<le> int r mod (b - a + 1)" "int r mod (b - a + 1) < b - a + 1"
    using p by (rule pos_mod_sign, rule pos_mod_bound)
  with ab show ?thesis by (simp add: randint_def)
qed

lemma sample_no_error:
  "0 \<le> k \<Longrightarrow> k \<le> int (length population) \<Longrightarrow> sample population k tape \<noteq> Some (Inl e)"
  by (simp add: sample_def split: option.splits)

lemma pick_activation_no_error: "pick_activation available_colors tape \<noteq> Some (Inl e)"
proof (cases "1 \<le> length available_colors")
  case True
  show ?thesis
  proof (cases tape)
    case Nil
    then show ?thesis using True by (simp add: pick_activation_def)
  next
    case (Cons r tape')
    have "(1::int) \<le> min 2 (int (length available_colors))" using True by simp
    from randint_ok [OF this, of r] obtain v
      where v: "randint 1 (min 2 (int (length available_colors))) r = Inr v" "1 \<le> v"
        "v \<le> min 2 (int (length available_colors))" by blast
    then have "0 \<le> v" "v \<le> int (length available_colors)" by simp_all
    from sample_no_error [OF this] show ?thesis
      using True Cons v(1) by (simp add: pick_activation_def)
  qed
next
  case False
  then show ?thesis by (simp add: pick_activation_def)
qed

lemma choice_directions_no_error: "choice directions r \<noteq> Inl e"
  by (simp add: choice_def directions_def)

lemma color_loop_no_error: "color_loop n used_colors cs tape \<noteq> Some (Inl e)"
proof (induction n arbitrary: used_colors cs tape)
  case 0
  show ?case by simp
next
  case (Suc n)
  show ?case
    by (simp add: Suc pick_activation_no_error choice_directions_no_error
        split: option.splits sum.splits prod.splits list.splits)
qed

lemma take_snoc: "take (Suc (length ys)) xs = ys @ [x] \<Longrightarrow> take (length ys) xs = ys"
proof -
  assume a: "take (Suc (length ys)) xs = ys @ [x]"
  have "take (length ys) xs = take (length ys) (take (Suc (length ys)) xs)" by simp
  also have "\<dots> = ys" unfolding a by simp
  finally show ?thesis .
qed

lemma color_loop_length:
  "color_loop n used_colors cs tape = Some (Inr cs') \<Longrightarrow>
   length cs' = length cs + n \<and> take (length cs) cs' = cs"
proof (induction n arbitrary: used_colors cs tape)
  case 0
  then show ?case by simp
next
  case (Suc n)
  from Suc.prems show ?case
    by (auto split: option.splits sum.splits prod.splits list.splits dest!: Suc.IH
        intro: take_snoc)
qed

lemma card_rgb: "card (UNIV :: rgb set) = 2 ^ 24"
proof -
  have a: "card ((UNIV :: 8 word set) \<times> (UNIV :: 8 word set) \<times> (UNIV :: 8 word set)) = 2 ^ 24"
    by (simp only: card_cartesian_product card_word) simp
  have b: "(UNIV :: 8 word set) \<times> (UNIV :: 8 word set) \<times> (UNIV :: 8 word set) = UNIV"
    by simp
  show ?thesis using a unfolding b .
qed

lemma exists_fresh: "length used_colors < 2 ^ 24 \<Longrightarrow> \<exists>c :: rgb. c \<notin> set used_colors"
proof -
  assume l: "length used_colors < 2 ^ 24"
  have "card (set used_colors) \<le> length used_colors" by (rule card_length)
  with l have "card (set used_colors) \<noteq> card (UNIV :: rgb set)" unfolding card_rgb by simp
  then have "set used_colors \<noteq> UNIV" by auto
  then show ?thesis by auto
qed

lemma fresh_color_hit:
  "(r, g, b) \<notin> set used_colors \<Longrightarrow>
   fresh_color used_colors (unat r # unat g # unat b # tape) = Some ((r, g, b), tape)"
proof -
  have m: "of_nat (unat w mod 256) = w" for w :: "8 word"
  proof -
    have "unat w < 256" using unsigned_less [of w, where 'a = nat] by simp
    then show ?thesis by simp
  qed
  assume "(r, g, b) \<notin> set used_colors"
  then show ?thesis by (simp add: m)
qed

lemma sample_one:
  "population \<noteq> [] \<Longrightarrow>
   sample population 1 (i # tape) = Some (Inr ([population ! (i mod length population)], tape))"
proof -
  assume "population \<noteq> []"
  then have l: "1 \<le> length population" by (cases population) simp_all
  have "pick (Suc 0) population (i # tape) =
      Some ([population ! (i mod length population)], tape)" by simp
  with l \<open>population \<noteq> []\<close> show ?thesis by (simp add: sample_def)
qed

lemma pick_activation_first:
  "pick_activation used_colors
     (if used_colors = [] then tape else 0 # 0 # tape) =
   Some (Inr (if used_colors = [] then [] else [used_colors ! 0], tape))"
proof (cases "used_colors = []")
  case True
  then show ?thesis by (simp add: pick_activation_def)
next
  case False
  then have l: "1 \<le> length used_colors" by (cases used_colors) simp_all
  then have "randint 1 (min 2 (int (length used_colors))) 0 = Inr 1"
    by (simp add: randint_def)
  with False l show ?thesis by (simp add: pick_activation_def sample_one)
qed

lemma color_loop_returns:
  "length used_colors + n \<le> 2 ^ 24 \<Longrightarrow>
   \<exists>tape cs'. color_loop n used_colors cs tape = Some (Inr cs')"
proof (induction n arbitrary: used_colors cs)
  case 0
  show ?case by simp
next
  case (Suc n)
  then have "length used_colors < 2 ^ 24" by simp
  from exists_fresh [OF this] obtain r g b where c: "(r, g, b) \<notin> set used_colors"
    by (metis prod_cases3)
  have f: "filter (\<lambda>x. x \<noteq> (r, g, b)) used_colors = used_colors"
    using c by (simp add: filter_id_conv) auto
  define activation where
    "activation = (if used_colors = [] then [] else [used_colors ! 0])"
  from Suc.prems have "length (used_colors @ [(r, g, b)]) + n \<le> 2 ^ 24" by simp
  from Suc.IH [OF this] obtain tape3 cs'
    where t: "color_loop n (used_colors @ [(r, g, b)])
        (cs @ [\<lparr>rgb = (r, g, b), check_direction = Left, activation_colors = activation\<rparr>])
        tape3 = Some (Inr cs')" by blast
  define tape1 where "tape1 = (if used_colors = [] then 0 # tape3 else 0 # 0 # 0 # tape3)"
  have p: "pick_activation used_colors tape1 = Some (Inr (activation, 0 # tape3))"
    using pick_activation_first [of used_colors "0 # tape3"]
    by (simp add: tape1_def activation_def)
  have d: "choice directions 0 = Inr Left" by (simp add: choice_def directions_def)
  have "color_loop (Suc n) used_colors cs (unat r # unat g # unat b # tape1) = Some (Inr cs')"
    by (simp add: fresh_color_hit [OF c] f p d t del: fresh_color.simps)
  then show ?case by blast
qed

section \<open>The example instances\<close>

lemma wf_chain3: "wf_image 3 (image_array chain3)"
  by (simp add: chain3_def wf_image_def)

lemma wf_pair2: "wf_image 2 (image_array pair2)"
  by (simp add: pair2_def wf_image_def)

lemma wf_white1: "wf_image 1 (image_array white1)"
  by (simp add: white1_def wf_image_def)

lemma iterate_once_chain3:
  "iterate_once chain3 =
     Inr (chain3\<lparr>image_array :=
       [[(9, 9, 9), (0, 0, 0), (9, 9, 9)],
        [(0, 0, 0), (0, 0, 0), (0, 0, 0)],
        [(0, 0, 0), (0, 0, 0), (0, 0, 0)]]\<rparr>)"
  by (simp add: iterate_once_def chain3_def iterate_cell_def get_pixel_def set_pixel_def
        get_check_position_def upt_conv_Cons)

lemma iterate_once_pair2:
  "iterate_once pair2 =
     Inr (pair2\<lparr>image_array := [[(0, 0, 0), (255, 255, 255)], [(0, 0, 0), (0, 0, 0)]]\<rparr>)"
  by (simp add: iterate_once_def pair2_def iterate_cell_def get_pixel_def set_pixel_def
        get_check_position_def upt_conv_Cons)

lemma touched_pair2: "touched pair2 (cells 2) = [(0, 0), (0, 1)]"
  by (simp add: cells_def pair2_def swap_target_def get_pixel_def get_check_position_def
        upt_conv_Cons)

lemma map_raise_all:
  "map_raise f xs = Inr ys \<Longrightarrow> list_all (\<lambda>x. \<exists>y. f x = Inr y) xs"
  by (induction xs arbitrary: ys) (auto split: sum.splits)

lemma serialize_white1: "serialize white1 = Inr ''111111111111111111111111''"
  by code_simp

lemma generate_key_white1: "generate_key white1 = Inr ''124''"
  by code_simp

lemma key_bytes_124: "key_bytes_of ''124'' = Inr [12, 4]"
  by code_simp

lemma passes3_ticking2:
  "passes 3 ticking2 =
     Inr (ticking2\<lparr>image_array := [[(0, 0, 0), (255, 255, 255)], [(0, 0, 0), (0, 0, 0)]]\<rparr>)"
  by code_simp

lemma passes3_ticking2_again:
  "passes 3 (ticking2\<lparr>image_array := [[(0, 0, 0), (255, 255, 255)], [(0, 0, 0), (0, 0, 0)]]\<rparr>) =
     Inr (ticking2\<lparr>image_array := [[(255, 255, 255), (0, 0, 0)], [(0, 0, 0), (0, 0, 0)]]\<rparr>)"
  by code_simp

lemma generate_key_pair2: "generate_key pair2 = Inr ''124072''"
  by code_simp

lemma key_bytes_124072: "key_bytes_of ''124072'' = Inr [12, 40, 72]"
  by code_simp

lemma encode_utf8_sample:
  "encode_utf8 [0x68, 0xE9, 0x20AC, 0x1F600] =
     Inr [0x68, 0xC3, 0xA9, 0xE2, 0x82, 0xAC, 0xF0, 0x9F, 0x98, 0x80]"
  by (simp add: encode_char_def)

lemma xor_bytes_sample:
  "xor_bytes [0x68, 0xC3, 0xA9, 0xE2, 0x82, 0xAC, 0xF0, 0x9F, 0x98, 0x80] [12, 40, 72] =
     Inr [0x64, 0xEB, 0xE1, 0xEE, 0xAA, 0xE4, 0xFC, 0xB7, 0xD0, 0x8C]"
  by code_simp

lemma hex_sample:
  "hex [0x64, 0xEB, 0xE1, 0xEE, 0xAA, 0xE4, 0xFC, 0xB7, 0xD0, 0x8C] = ''64ebe1eeaae4fcb7d08c''"
  by (simp add: hex_def hex_char_def)

lemma encrypt_pair2:
  "encrypt_string pair2 [0x68, 0xE9, 0x20AC, 0x1F600] = Inr ''64ebe1eeaae4fcb7d08c''"
  by (simp only: encrypt_string_def generate_key_pair2 key_bytes_124072 encode_utf8_sample
        xor_bytes_sample hex_sample sum.case)

lemma encrypt_pair2_empty: "encrypt_string pair2 [] = Inr []"
  by code_simp

lemma create_adis_encrypt_pair2: "create_adis_encrypt pair2 [65] = Inr sealed2"
  by code_simp

lemma iterate_once_sealed2: "iterate_once sealed2 = Inr evolved2"
  by code_simp

lemma existing_decrypt_sealed2: "existing_decrypt sealed2 = Some (Inr [65])"
  by code_simp

lemma generate_key_sealed2: "generate_key sealed2 = Inr ''124072''"
  by code_simp

lemma generate_key_evolved2: "generate_key evolved2 = Inr ''024124048''"
  by code_simp

lemma existing_decrypt_evolved2: "existing_decrypt evolved2 = Some (Inr [79])"
  by code_simp

lemma generate_random_colors_blank2:
  "generate_random_colors [255, 255, 255, 1, 0, 0, 0, 0, 0, 2] blank2 = Some (Inr painted2)"
  by code_simp

lemma adis_init_blank2:
  "adis_init 2 2 1 (Inr [[(0, 0, 0), (0, 0, 0)], [(0, 0, 0), (0, 0, 0)]]) = Inr blank2"
  by (simp add: adis_init_def blank2_def)

section \<open>Properties of the time scheduler\<close>

text \<open>
  C7. With \<^verbatim>\<open>iteration_speed\<close> at least 1 and \<^verbatim>\<open>last_time = 0\<close>, \<^verbatim>\<open>update_times\<close> with
  any external tick \<open>t\<close> sets \<^verbatim>\<open>last_time = t\<close> and \<^verbatim>\<open>now_time = t + iteration_speed\<close>, and
  a following \<^verbatim>\<open>iterate_required\<close> is exactly one \<^verbatim>\<open>iterate_once\<close> with one increment of
  \<^verbatim>\<open>iteration_count\<close>. With \<^verbatim>\<open>last_time\<close> not 0 it sets \<^verbatim>\<open>last_time\<close> to the old
  \<^verbatim>\<open>now_time\<close> and \<^verbatim>\<open>now_time\<close> to \<open>t\<close>.
\<close>

theorem update_times_ticks:
  "(1 \<le> iteration_speed s \<and> last_time s = 0 \<longrightarrow>
      last_time (update_times s t) = t \<and>
      now_time (update_times s t) = t + iteration_speed s \<and>
      iterate_required (update_times s t) =
        (case iterate_once (update_times s t) of
           Inl e \<Rightarrow> Inl e
         | Inr s' \<Rightarrow> Inr (s'\<lparr>iteration_count := iteration_count s' + 1\<rparr>))) \<and>
   (last_time s \<noteq> 0 \<longrightarrow>
      last_time (update_times s t) = now_time s \<and> now_time (update_times s t) = t)"
proof (intro conjI impI)
  assume h: "1 \<le> iteration_speed s \<and> last_time s = 0"
  let ?u = "update_times s t"
  show "last_time ?u = t" using h by (simp add: update_times_def)
  show "now_time ?u = t + iteration_speed s" using h by (simp add: update_times_def)
  have sp: "iteration_speed ?u = iteration_speed s" by (simp add: update_times_def)
  have d: "now_time ?u - last_time ?u = iteration_speed s"
    using h by (simp add: update_times_def)
  have n: "nat ((now_time ?u - last_time ?u) div iteration_speed ?u) = Suc 0"
    using h by (simp add: d sp)
  show "iterate_required ?u =
      (case iterate_once ?u of
         Inl e \<Rightarrow> Inl e
       | Inr s' \<Rightarrow> Inr (s'\<lparr>iteration_count := iteration_count s' + 1\<rparr>))"
    unfolding iterate_required_def Let_def n using h
    by (simp add: sp split: sum.splits)
next
  assume "last_time s \<noteq> 0"
  then show "last_time (update_times s t) = now_time s" by (simp add: update_times_def)
next
  assume "last_time s \<noteq> 0"
  then show "now_time (update_times s t) = t" by (simp add: update_times_def)
qed

theorem update_times_ticks_witness:
  "last_time (update_times white1 7) = 7 \<and> now_time (update_times white1 7) = 9 \<and>
   map_sum id iteration_count (iterate_required (update_times white1 7)) = Inr 1 \<and>
   last_time (update_times (update_times white1 7) 11) = 9 \<and>
   now_time (update_times (update_times white1 7) 11) = 11"
proof -
  have a: "1 \<le> iteration_speed white1 \<and> last_time white1 = 0" by (simp add: white1_def)
  have b: "last_time (update_times white1 7) \<noteq> 0" by (simp add: white1_def update_times_def)
  have o: "iterate_once (update_times white1 7) = Inr (update_times white1 7)"
    by (simp add: iterate_once_def iterate_cell_def get_pixel_def get_check_position_def
        white1_def update_times_def)
  show ?thesis
    using update_times_ticks [of white1 7] update_times_ticks [of "update_times white1 7" 11] a b
    by (simp add: o) (simp add: white1_def update_times_def)
qed

section \<open>Properties of one pass and of repeated passes\<close>

text \<open>
  C9. On an array of shape (R, R, 3), \<^verbatim>\<open>iterate_once\<close> returns and every cell value of the
  new array is a cell value of the array before the pass. Consequently, when every cell
  holds a colour of \<^verbatim>\<open>color_set\<close>, so does every cell after any number \<open>n\<close> of passes of
  the loop of \<^verbatim>\<open>iterate_required\<close>.
\<close>

theorem iterate_once_cells_from_before:
  assumes "wf_image (resolution s) (image_array s)"
  shows "(\<exists>s'. iterate_once s = Inr s' \<and>
            set (concat (image_array s')) \<subseteq> set (concat (image_array s))) \<and>
         (set (concat (image_array s)) \<subseteq> rgb ` set (color_set s) \<longrightarrow>
            (\<exists>s'. iterate_loop n s = Inr s' \<and> color_set s' = color_set s \<and>
               set (concat (image_array s')) \<subseteq> rgb ` set (color_set s)))"
proof (intro conjI impI)
  from iterate_once_wf [OF assms refl] obtain new
    where "iterate_once s = Inr (s\<lparr>image_array := new\<rparr>)"
      "set (concat new) \<subseteq> set (concat (image_array s))" by blast
  then show "\<exists>s'. iterate_once s = Inr s' \<and>
      set (concat (image_array s')) \<subseteq> set (concat (image_array s))" by simp
next
  assume p: "set (concat (image_array s)) \<subseteq> rgb ` set (color_set s)"
  from iterate_loop_wf [OF assms refl, of n] obtain new
    where l: "iterate_loop n s =
        Inr (s\<lparr>image_array := new, iteration_count := iteration_count s + int n\<rparr>)"
      "set (concat new) \<subseteq> set (concat (image_array s))" by blast
  from l(2) p have "set (concat new) \<subseteq> rgb ` set (color_set s)" by (rule subset_trans)
  with l(1) show "\<exists>s'. iterate_loop n s = Inr s' \<and> color_set s' = color_set s \<and>
      set (concat (image_array s')) \<subseteq> rgb ` set (color_set s)" by simp
qed

theorem iterate_once_cells_from_before_witness:
  "wf_image (resolution chain3) (image_array chain3) \<and>
   set (concat (image_array chain3)) \<subseteq> rgb ` set (color_set chain3) \<and>
   (\<exists>s'. iterate_once chain3 = Inr s' \<and>
      set (concat (image_array s')) \<subseteq> set (concat (image_array chain3))) \<and>
   (\<exists>s'. iterate_loop 2 chain3 = Inr s' \<and> color_set s' = color_set chain3 \<and>
      set (concat (image_array s')) \<subseteq> rgb ` set (color_set chain3))"
proof -
  have w: "wf_image (resolution chain3) (image_array chain3)"
    using wf_chain3 by (simp add: chain3_def)
  have p: "set (concat (image_array chain3)) \<subseteq> rgb ` set (color_set chain3)"
    by (simp add: chain3_def)
  from iterate_once_cells_from_before [OF w, of 2] p w show ?thesis by blast
qed

text \<open>
  C8. With a non-zero \<^verbatim>\<open>iteration_speed\<close>, an array of shape (R, R, 3) and \<open>pending\<close> the
  floor of \<^verbatim>\<open>(now_time - last_time) / iteration_speed\<close>: \<^verbatim>\<open>iterate_required\<close> returns the
  instance that \<open>pending\<close> successive passes of \<^verbatim>\<open>iterate_once\<close> produce (none when
  \<open>pending \<le> 0\<close>, so the instance is unchanged), with \<^verbatim>\<open>iteration_count\<close> larger by the
  number of passes; only \<^verbatim>\<open>image_array\<close> and \<^verbatim>\<open>iteration_count\<close> change, so \<^verbatim>\<open>last_time\<close>
  and \<^verbatim>\<open>now_time\<close> are as before; and a second call makes the same number of passes again,
  on the array the first call left.
\<close>

theorem iterate_required_frame:
  assumes "iteration_speed s \<noteq> 0" and "wf_image (resolution s) (image_array s)"
    and "pending = (now_time s - last_time s) div iteration_speed s"
  shows "\<exists>new new2.
           passes (nat pending) s = Inr (s\<lparr>image_array := new\<rparr>) \<and>
           iterate_required s =
             Inr (s\<lparr>image_array := new,
                    iteration_count := iteration_count s + int (nat pending)\<rparr>) \<and>
           (pending \<le> 0 \<longrightarrow> iterate_required s = Inr s) \<and>
           passes (nat pending) (s\<lparr>image_array := new\<rparr>) = Inr (s\<lparr>image_array := new2\<rparr>) \<and>
           iterate_required
               (s\<lparr>image_array := new,
                   iteration_count := iteration_count s + int (nat pending)\<rparr>) =
             Inr (s\<lparr>image_array := new2,
                    iteration_count := iteration_count s + 2 * int (nat pending)\<rparr>)"
proof -
  let ?n = "nat pending"
  from passes_wf [OF assms(2) refl, of ?n] obtain new
    where p1: "passes ?n s = Inr (s\<lparr>image_array := new\<rparr>)"
      and w1: "wf_image (resolution s) new" by blast
  let ?t = "s\<lparr>image_array := new\<rparr>"
  have "wf_image (resolution ?t) (image_array ?t)" using w1 by simp
  from passes_wf [OF this refl, of ?n] obtain new2
    where p2: "passes ?n ?t = Inr (s\<lparr>image_array := new2\<rparr>)" by auto
  let ?s1 = "s\<lparr>image_array := new, iteration_count := iteration_count s + int ?n\<rparr>"
  have r1: "iterate_required s = Inr ?s1"
    using assms(1,3) p1 by (simp add: iterate_required_def iterate_loop_passes)
  have z: "pending \<le> 0 \<longrightarrow> iterate_required s = Inr s"
  proof
    assume "pending \<le> 0"
    then have "?n = 0" by simp
    then show "iterate_required s = Inr s"
      using assms(1,3) by (simp add: iterate_required_def)
  qed
  have pc: "passes ?n ?s1 =
      Inr (s\<lparr>image_array := new2, iteration_count := iteration_count s + int ?n\<rparr>)"
    using passes_count [where n = ?n and s = ?t and c = "iteration_count s + int ?n"] p2
    by simp
  have "iterate_required ?s1 = iterate_loop ?n ?s1"
    using assms(1,3) by (simp add: iterate_required_def)
  also have "\<dots> = (case passes ?n ?s1 of Inl e \<Rightarrow> Inl e
      | Inr t \<Rightarrow> Inr (t\<lparr>iteration_count := iteration_count ?s1 + int ?n\<rparr>))"
    by (rule iterate_loop_passes)
  also have "\<dots> = Inr (s\<lparr>image_array := new2,
      iteration_count := iteration_count s + 2 * int ?n\<rparr>)"
    unfolding pc by simp
  finally have r2: "iterate_required ?s1 =
      Inr (s\<lparr>image_array := new2, iteration_count := iteration_count s + 2 * int ?n\<rparr>)" .
  from p1 r1 z p2 r2 show ?thesis by blast
qed

theorem iterate_required_frame_witness:
  "iteration_speed ticking2 \<noteq> 0 \<and>
   wf_image (resolution ticking2) (image_array ticking2) \<and>
   (now_time ticking2 - last_time ticking2) div iteration_speed ticking2 = 3 \<and>
   image_array ticking2 = [[(255, 255, 255), (0, 0, 0)], [(0, 0, 0), (0, 0, 0)]] \<and>
   iterate_required ticking2 =
     Inr (ticking2\<lparr>image_array := [[(0, 0, 0), (255, 255, 255)], [(0, 0, 0), (0, 0, 0)]],
            iteration_count := 3\<rparr>) \<and>
   iterate_required
       (ticking2\<lparr>image_array := [[(0, 0, 0), (255, 255, 255)], [(0, 0, 0), (0, 0, 0)]],
           iteration_count := 3\<rparr>) =
     Inr (ticking2\<lparr>image_array := [[(255, 255, 255), (0, 0, 0)], [(0, 0, 0), (0, 0, 0)]],
            iteration_count := 6\<rparr>) \<and>
   iterate_required white1 = Inr white1"
proof -
  have a: "iteration_speed ticking2 \<noteq> 0" "iteration_speed white1 \<noteq> 0"
    by (simp_all add: ticking2_def pair2_def white1_def)
  have w: "wf_image (resolution ticking2) (image_array ticking2)"
    "wf_image (resolution white1) (image_array white1)"
    using wf_pair2 wf_white1 by (simp_all add: ticking2_def pair2_def white1_def)
  have p: "(3::int) = (now_time ticking2 - last_time ticking2) div iteration_speed ticking2"
    "(0::int) = (now_time white1 - last_time white1) div iteration_speed white1"
    by (simp_all add: ticking2_def pair2_def white1_def)
  have i: "image_array ticking2 = [[(255, 255, 255), (0, 0, 0)], [(0, 0, 0), (0, 0, 0)]]"
    "iteration_count ticking2 = 0"
    by (simp_all add: ticking2_def pair2_def)
  from iterate_required_frame [OF a(1) w(1) p(1)] obtain new new2
    where h: "passes (nat 3) ticking2 = Inr (ticking2\<lparr>image_array := new\<rparr>)"
      "iterate_required ticking2 =
         Inr (ticking2\<lparr>image_array := new,
                iteration_count := iteration_count ticking2 + int (nat 3)\<rparr>)"
      "passes (nat 3) (ticking2\<lparr>image_array := new\<rparr>) = Inr (ticking2\<lparr>image_array := new2\<rparr>)"
      "iterate_required
         (ticking2\<lparr>image_array := new,
             iteration_count := iteration_count ticking2 + int (nat 3)\<rparr>) =
       Inr (ticking2\<lparr>image_array := new2,
              iteration_count := iteration_count ticking2 + 2 * int (nat 3)\<rparr>)"
    by blast
  have n3: "nat 3 = 3" by simp
  from h(1) have n: "new = [[(0, 0, 0), (255, 255, 255)], [(0, 0, 0), (0, 0, 0)]]"
    unfolding n3 passes3_ticking2 by (simp add: adis.equality ticking2_def pair2_def)
  from h(3) have n2: "new2 = [[(255, 255, 255), (0, 0, 0)], [(0, 0, 0), (0, 0, 0)]]"
    unfolding n3 n passes3_ticking2_again by (simp add: adis.equality ticking2_def pair2_def)
  from iterate_required_frame [OF a(2) w(2) p(2)] have z: "iterate_required white1 = Inr white1"
    by auto
  from h(2,4) have
    "iterate_required ticking2 =
       Inr (ticking2\<lparr>image_array := [[(0, 0, 0), (255, 255, 255)], [(0, 0, 0), (0, 0, 0)]],
              iteration_count := 3\<rparr>)"
    "iterate_required
       (ticking2\<lparr>image_array := [[(0, 0, 0), (255, 255, 255)], [(0, 0, 0), (0, 0, 0)]],
           iteration_count := 3\<rparr>) =
     Inr (ticking2\<lparr>image_array := [[(255, 255, 255), (0, 0, 0)], [(0, 0, 0), (0, 0, 0)]],
            iteration_count := 6\<rparr>)"
    unfolding n n2 i(2) by simp_all
  with a(1) w(1) p(1) [symmetric] i(1) z show ?thesis by blast
qed

text \<open>
  C2, as stated, fails: on \<open>chain3\<close> the swap of the white and the grey cell and the swap
  of the grey and the black cell both write the middle cell, and the pass leaves no white
  cell where there was one.
\<close>

theorem iterate_once_multiset_counterexample:
  "wf_image (resolution chain3) (image_array chain3) \<and>
   map_sum id (\<lambda>s'. count (mset (concat (image_array s'))) (255, 255, 255))
     (iterate_once chain3) = Inr 0 \<and>
   count (mset (concat (image_array chain3))) (255, 255, 255) = 1"
  using wf_chain3 by (simp add: iterate_once_chain3) (simp add: chain3_def)

text \<open>
  C2, amended. When the swaps of one pass write pairwise different cells, the multiset of
  the cell colours after \<^verbatim>\<open>iterate_once\<close> is the multiset before it.
\<close>

theorem iterate_once_multiset:
  assumes "wf_image (resolution s) (image_array s)"
    and "distinct (touched s (cells (resolution s)))"
  shows "\<exists>s'. iterate_once s = Inr s' \<and>
           mset (concat (image_array s')) = mset (concat (image_array s))"
proof -
  from iterate_once_mset [OF assms(1) refl assms(2)] obtain new
    where "iterate_once s = Inr (s\<lparr>image_array := new\<rparr>)"
      "mset (concat new) = mset (concat (image_array s))" by blast
  then show ?thesis by simp
qed

theorem iterate_once_multiset_witness:
  "wf_image (resolution pair2) (image_array pair2) \<and>
   distinct (touched pair2 (cells (resolution pair2))) \<and>
   (\<exists>s'. iterate_once pair2 = Inr s' \<and>
      mset (concat (image_array s')) = mset (concat (image_array pair2)))"
proof -
  have r: "resolution pair2 = 2" by (simp add: pair2_def)
  have w: "wf_image (resolution pair2) (image_array pair2)" using wf_pair2 by (simp add: r)
  have d: "distinct (touched pair2 (cells (resolution pair2)))" by (simp add: r touched_pair2)
  from iterate_once_multiset [OF w d] w d show ?thesis by blast
qed

text \<open>
  C4. On an array of shape (R, R, 3) and a colour set with pairwise different colours, one
  \<^verbatim>\<open>iterate_once\<close> returns the grid of the reference algorithm of section 4.2: a copy of the
  grid, the cells scanned in row-major order, the rule of the cell's colour (none is a
  no-op), the neighbour by the rule's direction with wraparound, the neighbour's colour read
  from the grid before the step, and the swapped pair written into the copy, a later write
  replacing an earlier one. \<^verbatim>\<open>get_check_position\<close> is the wraparound neighbour.
\<close>

theorem iterate_once_reference:
  assumes "wf_image (resolution s) (image_array s)" and "distinct (map rgb (color_set s))"
  shows "iterate_once s =
           Inr (s\<lparr>image_array :=
                  step_reference (resolution s) (color_set s) (image_array s)\<rparr>) \<and>
         (0 < resolution s \<longrightarrow>
            get_check_position (resolution s) x y d = Inr (neighbor (resolution s) (x, y) d))"
proof -
  have "for_each (\<lambda>(x, y). iterate_cell s x y) (cells (resolution s)) (image_array s) =
      Inr (fold (step_cell (resolution s) (color_set s) (image_array s))
             (cells (resolution s)) (image_array s))"
    by (rule for_each_cells_fold [OF assms(1) refl assms(2)])
       (use assms(1) in \<open>auto simp: cells_def\<close>)
  then show ?thesis
    by (simp add: iterate_once_def for_each_product step_reference_def cells_def
          get_check_position_neighbor)
qed

theorem iterate_once_reference_witness:
  "wf_image (resolution chain3) (image_array chain3) \<and>
   distinct (map rgb (color_set chain3)) \<and> 0 < resolution chain3 \<and>
   iterate_once chain3 =
     Inr (chain3\<lparr>image_array :=
            step_reference (resolution chain3) (color_set chain3) (image_array chain3)\<rparr>) \<and>
   step_reference (resolution chain3) (color_set chain3) (image_array chain3) =
     [[(9, 9, 9), (0, 0, 0), (9, 9, 9)],
      [(0, 0, 0), (0, 0, 0), (0, 0, 0)],
      [(0, 0, 0), (0, 0, 0), (0, 0, 0)]] \<and>
   get_check_position (resolution chain3) 0 0 Left = Inr (neighbor (resolution chain3) (0, 0) Left)
   \<and> neighbor (resolution chain3) (0, 0) Left = (0, 2)"
proof -
  have w: "wf_image (resolution chain3) (image_array chain3)"
    using wf_chain3 by (simp add: chain3_def)
  have d: "distinct (map rgb (color_set chain3))" by (simp add: chain3_def)
  have r: "0 < resolution chain3" by (simp add: chain3_def)
  have n: "neighbor (resolution chain3) (0, 0) Left = (0, 2)"
    by (simp add: chain3_def neighbor_def)
  have e: "step_reference (resolution chain3) (color_set chain3) (image_array chain3) =
     [[(9, 9, 9), (0, 0, 0), (9, 9, 9)],
      [(0, 0, 0), (0, 0, 0), (0, 0, 0)],
      [(0, 0, 0), (0, 0, 0), (0, 0, 0)]]"
    by (simp add: chain3_def step_reference_def cells_def step_cell_def rule_of_def
          neighbor_def poke_def upt_conv_Cons)
  from iterate_once_reference [OF w d, of 0 0 Left] w d r n e show ?thesis by simp
qed

section \<open>Properties of the key deriver\<close>

text \<open>
  C5. On an array of shape (R, R, 3) with R at least 1, the serialised bit string has
  3 * 8 * R * R bits, \<^verbatim>\<open>generate_key\<close> returns its run-length encoding, and the chunks of
  two characters of the key parse to a non-empty list of numbers between 0 and 99.
\<close>

theorem generate_key_keystream:
  assumes "wf_image (resolution s) (image_array s)" and "1 \<le> resolution s"
  shows "\<exists>binary key ks. serialize s = Inr binary \<and>
           length binary = 3 * 8 * (resolution s)\<^sup>2 \<and>
           generate_key s = Inr key \<and> key = rle binary \<and>
           key_bytes_of key = Inr ks \<and> ks \<noteq> [] \<and>
           length ks = (length key + 1) div 2 \<and> list_all (\<lambda>k. k \<le> 99) ks"
proof -
  from generate_key_wf [OF assms(1) refl assms(2)] obtain binary key
    where k: "serialize s = Inr binary" "length binary = 3 * 8 * (resolution s)\<^sup>2"
      "generate_key s = Inr key" "key = rle binary" "list_all is_digit key" "2 \<le> length key"
    by blast
  from key_bytes_digits [OF k(5)] obtain ks
    where ks: "map_raise py_int (chunks2 key) = Inr ks" "length ks = (length key + 1) div 2"
      "\<forall>k \<in> set ks. k \<le> 99" by blast
  from ks(2) k(6) have "ks \<noteq> []" by auto
  with k ks show ?thesis by (simp add: key_bytes_of_def list_all_iff)
qed

theorem generate_key_keystream_witness:
  "wf_image (resolution white1) (image_array white1) \<and> 1 \<le> resolution white1 \<and>
   serialize white1 = Inr ''111111111111111111111111'' \<and>
   length ''111111111111111111111111'' = 3 * 8 * (resolution white1)\<^sup>2 \<and>
   generate_key white1 = Inr ''124'' \<and> ''124'' = rle ''111111111111111111111111'' \<and>
   key_bytes_of ''124'' = Inr [12, 4]"
proof -
  have w: "wf_image (resolution white1) (image_array white1)"
    using wf_white1 by (simp add: white1_def)
  have r: "1 \<le> resolution white1" by (simp add: white1_def)
  from generate_key_keystream [OF w r] obtain binary key
    where h: "serialize white1 = Inr binary"
      "length binary = 3 * 8 * (resolution white1)\<^sup>2"
      "generate_key white1 = Inr key" "key = rle binary" by blast
  from h(1) have b: "binary = ''111111111111111111111111''" by (simp add: serialize_white1)
  from h(3) have k: "key = ''124''" by (simp add: generate_key_white1)
  have l: "length ''111111111111111111111111'' = 3 * 8 * (resolution white1)\<^sup>2"
    using h(2) unfolding b .
  have e: "''124'' = rle ''111111111111111111111111''" using h(4) unfolding b k .
  show ?thesis
    by (intro conjI w r serialize_white1 l generate_key_white1 e key_bytes_124)
qed

text \<open>
  C10. On an array of shape (R, R, 3) with R at least 1, the key string of
  \<^verbatim>\<open>generate_key\<close> consists of decimal digits only, every chunk of two characters parses
  as a base-10 integer, and when the length of the key is odd the last chunk is its last
  character alone and yields a value between 0 and 9.
\<close>

theorem generate_key_only_digits:
  assumes "wf_image (resolution s) (image_array s)" and "1 \<le> resolution s"
  shows "\<exists>key ks. generate_key s = Inr key \<and> list_all is_digit key \<and>
           list_all (\<lambda>chunk. \<exists>v. py_int chunk = Inr v) (chunks2 key) \<and>
           key_bytes_of key = Inr ks \<and>
           (odd (length key) \<longrightarrow> last (chunks2 key) = [last key] \<and> last ks \<le> 9)"
proof -
  from generate_key_wf [OF assms(1) refl assms(2)] obtain key
    where k: "generate_key s = Inr key" "list_all is_digit key" by blast
  from key_bytes_digits [OF k(2)] obtain ks
    where ks: "map_raise py_int (chunks2 key) = Inr ks"
      "odd (length key) \<longrightarrow> last (chunks2 key) = [last key] \<and> last ks \<le> 9" by blast
  from map_raise_all [OF ks(1)] k ks show ?thesis by (auto simp: key_bytes_of_def)
qed

theorem generate_key_only_digits_witness:
  "wf_image (resolution white1) (image_array white1) \<and> 1 \<le> resolution white1 \<and>
   generate_key white1 = Inr ''124'' \<and> list_all is_digit ''124'' \<and>
   odd (length ''124'') \<and> chunks2 ''124'' = [''12'', ''4''] \<and>
   py_int ''12'' = Inr 12 \<and> py_int ''4'' = Inr 4 \<and>
   key_bytes_of ''124'' = Inr [12, 4]"
proof -
  have w: "wf_image (resolution white1) (image_array white1)"
    using wf_white1 by (simp add: white1_def)
  have r: "1 \<le> resolution white1" by (simp add: white1_def)
  have p: "py_int ''12'' = Inr 12" "py_int ''4'' = Inr 4"
    by code_simp+
  have c: "odd (length ''124'')" "chunks2 ''124'' = [''12'', ''4'']" by simp_all
  from generate_key_only_digits [OF w r] obtain key
    where h: "generate_key white1 = Inr key" "list_all is_digit key" by blast
  from h(1) have k: "key = ''124''" by (simp add: generate_key_white1)
  have d: "list_all is_digit ''124''" using h(2) unfolding k .
  show ?thesis
    by (intro conjI w r generate_key_white1 d c p key_bytes_124)
qed

section \<open>Properties of the cipher\<close>

text \<open>
  C3. On an array of shape (R, R, 3) with R at least 1 and for every string of code points
  that UTF-8 encodes, the empty string and strings with multi-byte characters included:
  the key bytes are not empty, \<^verbatim>\<open>encrypt_string\<close> returns the hexadecimal form of the XOR
  of the UTF-8 bytes with the repeated key, which has as many bytes as the text, and
  \<^verbatim>\<open>decrypt_string\<close> on the same instance returns the original string from it.
\<close>

theorem encrypt_decrypt_roundtrip:
  assumes "wf_image (resolution s) (image_array s)" and "1 \<le> resolution s"
    and "list_all is_scalar cps"
  shows "\<exists>key key_bytes text_bytes encrypted_bytes.
           generate_key s = Inr key \<and> key_bytes_of key = Inr key_bytes \<and> key_bytes \<noteq> [] \<and>
           encode_utf8 cps = Inr text_bytes \<and>
           xor_bytes text_bytes key_bytes = Inr encrypted_bytes \<and>
           length encrypted_bytes = length text_bytes \<and>
           encrypt_string s cps = Inr (hex encrypted_bytes) \<and>
           decrypt_string s (hex encrypted_bytes) = Inr cps"
proof -
  from generate_key_wf [OF assms(1) refl assms(2)] obtain key
    where k: "generate_key s = Inr key" "list_all is_digit key" "2 \<le> length key" by blast
  from key_bytes_digits [OF k(2)] obtain ks
    where ks: "map_raise py_int (chunks2 key) = Inr ks" "length ks = (length key + 1) div 2"
      "\<forall>k \<in> set ks. k \<le> 99" by blast
  have kb: "key_bytes_of key = Inr ks" by (simp add: key_bytes_of_def ks(1))
  from ks(2) k(3) have ne: "ks \<noteq> []" by auto
  from ks(3) have b: "list_all (\<lambda>b. b < 256) ks" by (auto simp: list_all_iff)
  from encode_utf8_decode [OF assms(3)] obtain text_bytes
    where t: "encode_utf8 cps = Inr text_bytes" "list_all (\<lambda>b. b < 256) text_bytes"
      "decode_utf8 text_bytes = Inr cps" by blast
  from xor_bytes_twice [OF ne b t(2)] obtain enc
    where e: "xor_bytes text_bytes ks = Inr enc" "length enc = length text_bytes"
      "list_all (\<lambda>b. b < 256) enc" "xor_bytes enc ks = Inr text_bytes" by blast
  have en: "encrypt_string s cps = Inr (hex enc)"
    by (simp add: encrypt_string_def k(1) kb t(1) e(1))
  have de: "decrypt_string s (hex enc) = Inr cps"
    by (simp add: decrypt_string_def k(1) kb fromhex_hex [OF e(3)] e(4) t(3))
  from k(1) kb ne t(1) e(1,2) en de show ?thesis by blast
qed

theorem encrypt_decrypt_roundtrip_witness:
  "wf_image (resolution pair2) (image_array pair2) \<and> 1 \<le> resolution pair2 \<and>
   list_all is_scalar [0x68, 0xE9, 0x20AC, 0x1F600] \<and>
   encrypt_string pair2 [0x68, 0xE9, 0x20AC, 0x1F600] = Inr ''64ebe1eeaae4fcb7d08c'' \<and>
   decrypt_string pair2 ''64ebe1eeaae4fcb7d08c'' = Inr [0x68, 0xE9, 0x20AC, 0x1F600] \<and>
   encrypt_string pair2 [] = Inr [] \<and> decrypt_string pair2 [] = Inr []"
proof -
  have w: "wf_image (resolution pair2) (image_array pair2)"
    using wf_pair2 by (simp add: pair2_def)
  have r: "1 \<le> resolution pair2" by (simp add: pair2_def)
  have c: "list_all is_scalar [0x68, 0xE9, 0x20AC, 0x1F600]" by (simp add: is_scalar_def)
  from encrypt_decrypt_roundtrip [OF w r c] obtain enc
    where h: "encrypt_string pair2 [0x68, 0xE9, 0x20AC, 0x1F600] = Inr (hex enc)"
      "decrypt_string pair2 (hex enc) = Inr [0x68, 0xE9, 0x20AC, 0x1F600]" by blast
  from h(1) have e: "hex enc = ''64ebe1eeaae4fcb7d08c''"
    unfolding encrypt_pair2 by (simp only: sum.inject)
  have d: "decrypt_string pair2 ''64ebe1eeaae4fcb7d08c'' = Inr [0x68, 0xE9, 0x20AC, 0x1F600]"
    using h(2) unfolding e .
  have n: "list_all is_scalar []" by simp
  from encrypt_decrypt_roundtrip [OF w r n] obtain enc0
    where h0: "encrypt_string pair2 [] = Inr (hex enc0)"
      "decrypt_string pair2 (hex enc0) = Inr []" by blast
  from h0(1) have e0: "hex enc0 = []"
    unfolding encrypt_pair2_empty by (simp only: sum.inject)
  have d0: "decrypt_string pair2 [] = Inr []" using h0(2) unfolding e0 .
  show ?thesis by (intro conjI w r c encrypt_pair2 d encrypt_pair2_empty d0)
qed

text \<open>
  C1. \<^verbatim>\<open>decrypt_string\<close> derives its key from the live array: the stored key image has
  no effect on its result. On the 2 x 2 instance, the text "A" is encrypted with the key
  124072 and the key image is stored; decrypting at once returns "A"; one pass later the
  key image is the same, the key of the live array is 024124048 and decrypting the stored
  ciphertext returns "O" (code point 79).
\<close>

theorem decrypt_string_reads_live_array:
  "decrypt_string (s\<lparr>key_image := k\<rparr>) encrypted_hex = decrypt_string s encrypted_hex \<and>
   create_adis_encrypt pair2 [65] = Inr sealed2 \<and>
   key_image sealed2 = Some (image_array pair2) \<and>
   existing_decrypt sealed2 = Some (Inr [65]) \<and>
   iterate_once sealed2 = Inr evolved2 \<and>
   key_image evolved2 = Some (image_array pair2) \<and>
   encrypted_string evolved2 = encrypted_string sealed2 \<and>
   generate_key sealed2 = Inr ''124072'' \<and>
   generate_key evolved2 = Inr ''024124048'' \<and>
   existing_decrypt evolved2 = Some (Inr [79])"
proof -
  have k: "key_image sealed2 = Some (image_array pair2)"
    "key_image evolved2 = Some (image_array pair2)"
    "encrypted_string evolved2 = encrypted_string sealed2"
    by (simp_all add: sealed2_def evolved2_def)
  show ?thesis
    by (intro conjI decrypt_string_key_image create_adis_encrypt_pair2 k
        existing_decrypt_sealed2 iterate_once_sealed2 generate_key_sealed2
        generate_key_evolved2 existing_decrypt_evolved2)
qed

section \<open>Properties of the construction\<close>

text \<open>
  C6, as stated, fails: with colour depth 0 \<^verbatim>\<open>generate_random_colors\<close> returns normally and
  leaves the instance as it was, and \<^verbatim>\<open>__init__\<close> returns an instance for resolution,
  colour depth and iteration speed all 0.
\<close>

theorem generate_random_colors_depth0_counterexample:
  "generate_random_colors [] (blank2\<lparr>color_depth := 0\<rparr>) = Some (Inr (blank2\<lparr>color_depth := 0\<rparr>)) \<and>
   adis_init 0 0 0 (Inr []) =
     Inr \<lparr>resolution = 0, color_depth = 0, iteration_speed = 0, last_time = 0, now_time = 0,
          iteration_count = 0, color_set = [], image_array = [], encrypted_string = None,
          key_image = None\<rparr>"
  by (simp add: generate_random_colors_def blank2_def adis_init_def)

text \<open>
  C6, amended. \<^verbatim>\<open>generate_random_colors\<close> has no error path for any colour depth: no draws
  make it raise; for a depth of 0 or less it returns at once with the instance unchanged;
  when it returns, only the palette has changed, and it is the old palette followed by
  as many new colours as the depth; for a depth up to \<open>2 ^ 24\<close> there are draws with which it
  returns. \<^verbatim>\<open>__init__\<close> checks none of its arguments: it returns an instance whenever
  the array is allocated.
\<close>

theorem generate_random_colors_no_error:
  "generate_random_colors tape s \<noteq> Some (Inl e) \<and>
   (color_depth s \<le> 0 \<longrightarrow> generate_random_colors tape s = Some (Inr s)) \<and>
   (generate_random_colors tape s = Some (Inr s') \<longrightarrow>
      s' = s\<lparr>color_set := color_set s'\<rparr> \<and>
      length (color_set s') = length (color_set s) + nat (color_depth s) \<and>
      take (length (color_set s)) (color_set s') = color_set s) \<and>
   (color_depth s \<le> 2 ^ 24 \<longrightarrow> (\<exists>draws t. generate_random_colors draws s = Some (Inr t))) \<and>
   adis_init res depth speed (Inr a) =
     Inr \<lparr>resolution = nat res, color_depth = depth, iteration_speed = speed, last_time = 0,
          now_time = 0, iteration_count = 0, color_set = [], image_array = a,
          encrypted_string = None, key_image = None\<rparr>"
proof (intro conjI impI)
  show "generate_random_colors tape s \<noteq> Some (Inl e)"
    using color_loop_no_error [of "nat (color_depth s)" "[]" "color_set s" tape e]
    by (auto simp: generate_random_colors_def split: option.splits sum.splits)
next
  assume "color_depth s \<le> 0"
  then show "generate_random_colors tape s = Some (Inr s)"
    by (simp add: generate_random_colors_def)
next
  assume g: "generate_random_colors tape s = Some (Inr s')"
  then obtain cs where cs: "color_loop (nat (color_depth s)) [] (color_set s) tape = Some (Inr cs)"
      "s' = s\<lparr>color_set := cs\<rparr>"
    by (auto simp: generate_random_colors_def split: option.splits sum.splits)
  from color_loop_length [OF cs(1)] cs(2)
  show "s' = s\<lparr>color_set := color_set s'\<rparr>"
    "length (color_set s') = length (color_set s) + nat (color_depth s)"
    "take (length (color_set s)) (color_set s') = color_set s"
    by simp_all
next
  assume "color_depth s \<le> 2 ^ 24"
  then have "length ([] :: rgb list) + nat (color_depth s) \<le> 2 ^ 24" by simp
  from color_loop_returns [OF this] obtain draws cs
    where "color_loop (nat (color_depth s)) [] (color_set s) draws = Some (Inr cs)" by blast
  then have "generate_random_colors draws s = Some (Inr (s\<lparr>color_set := cs\<rparr>))"
    by (simp add: generate_random_colors_def)
  then show "\<exists>draws t. generate_random_colors draws s = Some (Inr t)" by blast
next
  show "adis_init res depth speed (Inr a) =
     Inr \<lparr>resolution = nat res, color_depth = depth, iteration_speed = speed, last_time = 0,
          now_time = 0, iteration_count = 0, color_set = [], image_array = a,
          encrypted_string = None, key_image = None\<rparr>"
    by (simp add: adis_init_def)
qed

theorem generate_random_colors_no_error_witness:
  "color_depth (blank2\<lparr>color_depth := 0\<rparr>) \<le> 0 \<and>
   generate_random_colors [] (blank2\<lparr>color_depth := 0\<rparr>) = Some (Inr (blank2\<lparr>color_depth := 0\<rparr>)) \<and>
   color_depth blank2 \<le> 2 ^ 24 \<and>
   generate_random_colors [255, 255, 255, 1, 0, 0, 0, 0, 0, 2] blank2 = Some (Inr painted2) \<and>
   length (color_set painted2) = length (color_set blank2) + nat (color_depth blank2) \<and>
   length (color_set painted2) = 2 \<and>
   adis_init 2 2 1 (Inr [[(0, 0, 0), (0, 0, 0)], [(0, 0, 0), (0, 0, 0)]]) = Inr blank2"
proof -
  have z: "color_depth (blank2\<lparr>color_depth := 0\<rparr>) \<le> 0" by simp
  have d: "color_depth blank2 \<le> 2 ^ 24" by (simp add: blank2_def)
  from generate_random_colors_no_error [of "[]" "blank2\<lparr>color_depth := 0\<rparr>"] z
  have a: "generate_random_colors [] (blank2\<lparr>color_depth := 0\<rparr>) =
      Some (Inr (blank2\<lparr>color_depth := 0\<rparr>))" by blast
  from generate_random_colors_no_error
    [of "[255, 255, 255, 1, 0, 0, 0, 0, 0, 2]" blank2 _ painted2] generate_random_colors_blank2
  have l: "length (color_set painted2) = length (color_set blank2) + nat (color_depth blank2)"
    by blast
  have l2: "length (color_set painted2) = 2" by (simp add: painted2_def)
  show ?thesis
    by (intro conjI z a d generate_random_colors_blank2 l l2 adis_init_blank2)
qed

end
